theory Spec2Isabelle
  imports Main
begin

section \<open>Data model (taskmanager.ts)\<close>

text \<open>
  The task broker of \<^verbatim>\<open>src/src/taskmanager.ts\<close>, with the tool dispatcher of
  \<^verbatim>\<open>tools.ts\<close> and the code executor of \<^verbatim>\<open>python_executor.ts\<close>.

  JavaScript strings are modelled as \<^typ>\<open>string\<close>; characters outside ASCII are written
  as their UTF-8 bytes. Array lengths and iteration counters are \<^typ>\<open>nat\<close>, a chunk index
  is an \<^typ>\<open>int\<close> (the source also uses \<open>-1\<close>).
\<close>

datatype status = Running | Completed | Error

record TaskChunk =
  content :: string
  index :: int

text \<open>
  What \<open>notifySubscribers\<close> and \<open>subscribe\<close> serialise with \<open>JSON.stringify\<close>: the objects
  \<open>{type: "chunk", content, index}\<close>, \<open>{type: "done"}\<close> and \<open>{type: "error", error}\<close>
  (\<open>error\<close> is absent when \<open>task.error\<close> is undefined).
\<close>

datatype event = ChunkEv string int | DoneEv | ErrorEv "string option"

text \<open>
  What is enqueued on a stream controller: \<open>data: <json>\n\n\<close>, or the comment line
  \<open>: keep-alive\n\n\<close> of the heartbeat.
\<close>

datatype sse = Data event | KeepAlive

text \<open>
  A \<open>ReadableStreamDefaultController\<close>: what has been enqueued on it, and whether the stream
  is closed (by \<open>controller.close()\<close> or by the consumer cancelling). \<open>enqueue\<close> and \<open>close\<close>
  throw a TypeError on a closed stream; \<open>None\<close> is the throw.
\<close>

record controller =
  queue :: "sse list"
  closed :: bool

definition enqueue :: "sse \<Rightarrow> controller \<Rightarrow> controller option" where
  "enqueue msg c = (if closed c then None else Some (c\<lparr>queue := queue c @ [msg]\<rparr>))"

definition close :: "controller \<Rightarrow> controller option" where
  "close c = (if closed c then None else Some (c\<lparr>closed := True\<rparr>))"

text \<open>
  \<open>GenerationTask\<close>. Controllers are objects compared by identity: a controller is
  named by a number and lives in the store \<open>controllers\<close> of the world; \<open>subscribers\<close>, a
  \<open>Set\<close>, is the list of its members in insertion order.
\<close>

record GenerationTask =
  task_id :: string
  conversationId :: string
  status :: status
  chunks :: "TaskChunk list"
  fullResponse :: string
  error :: "string option"
  createdAt :: nat
  completedAt :: "nat option"
  subscribers :: "nat list"

text \<open>\<open>Set.prototype.add\<close> and \<open>delete\<close>; the argument of \<open>delete\<close> may be \<open>undefined\<close>.\<close>

definition set_add :: "nat \<Rightarrow> nat list \<Rightarrow> nat list" where
  "set_add c cs = (if c \<in> set cs then cs else cs @ [c])"

fun set_delete :: "nat option \<Rightarrow> nat list \<Rightarrow> nat list" where
  "set_delete None cs = cs"
| "set_delete (Some c) cs = removeAll c cs"

text \<open>
  Calls made on the external collaborators, in the order they are made: the engine
  (\<open>fetch\<close> of \<open>/api/chat\<close> with the request body's \<open>stream\<close> flag and the names of the
  offered tools), the tool gateway and the database.
\<close>

datatype jsobj = Undefined | Obj "(string \<times> string) list"

text \<open>
  A requested tool call as the engine's reply format has it: \<open>tool.function.name\<close> and
  \<open>tool.function.arguments\<close>.
\<close>

datatype tool_call = ToolCall (fn_name: string) (fn_arguments: jsobj)

datatype message = Message (role: string) (msg_content: string) (tool_calls: "tool_call list")

record request =
  req_messages :: "message list"
  req_stream :: bool
  req_tools :: "string list option"

datatype call =
    EngineCall request
  | ToolExec string jsobj
  | DbAddMessage string string string

text \<open>
  The world around one task: the registry \<open>activeTasks\<close>, the controller store, the
  messages stored by \<open>db.addMessage\<close>, the pending \<open>setTimeout\<close> deletions (delay in
  milliseconds, task id) and the log of external calls.
\<close>

record world =
  activeTasks :: "string \<rightharpoonup> GenerationTask"
  controllers :: "nat \<Rightarrow> controller"
  nextController :: nat
  db :: "(string \<times> string \<times> string) list"
  timers :: "(nat \<times> string) list"
  calls :: "call list"

section \<open>Internal helpers: notifySubscribers, closeSubscribers\<close>

text \<open>
  \<^verbatim>\<open>
  for (const controller of task.subscribers) {
      try { controller.enqueue(msg); } catch { task.subscribers.delete(controller); }
  }
  \<close>
\<close>

definition notifyOne :: "sse \<Rightarrow> nat \<Rightarrow> GenerationTask \<times> world \<Rightarrow> GenerationTask \<times> world" where
  "notifyOne msg c = (\<lambda>(task, w).
     case enqueue msg (controllers w c) of
       Some c' \<Rightarrow> (task, w\<lparr>controllers := (controllers w)(c := c')\<rparr>)
     | None \<Rightarrow> (task\<lparr>subscribers := set_delete (Some c) (subscribers task)\<rparr>, w))"

definition notifySubscribers :: "event \<Rightarrow> GenerationTask \<times> world \<Rightarrow> GenerationTask \<times> world" where
  "notifySubscribers data = (\<lambda>(task, w). fold (notifyOne (Data data)) (subscribers task) (task, w))"

text \<open>
  \<^verbatim>\<open>
  for (const controller of task.subscribers) { try { controller.close(); } catch { } }
  task.subscribers.clear();
  \<close>
\<close>

definition closeOne :: "nat \<Rightarrow> world \<Rightarrow> world" where
  "closeOne c w = (case close (controllers w c) of
       Some c' \<Rightarrow> w\<lparr>controllers := (controllers w)(c := c')\<rparr>
     | None \<Rightarrow> w)"

definition closeSubscribers :: "GenerationTask \<times> world \<Rightarrow> GenerationTask \<times> world" where
  "closeSubscribers = (\<lambda>(task, w). (task\<lparr>subscribers := []\<rparr>, fold closeOne (subscribers task) w))"

section \<open>subscribe and the HTTP layer's handleTaskStream\<close>

text \<open>
  The number \<open>subscribe\<close> is called with is what \<open>parseInt\<close> returned (or the default
  \<open>0\<close>): NaN or an integer. (An integer beyond
  double precision is rounded by JavaScript to another integer above \<open>2^53\<close> or to Infinity;
  against a chunk index, which is below \<open>2^32\<close>, the comparison is the same.)
\<close>

datatype jsnum = NaN | Num int

text \<open>\<open>c.index >= fromChunkIndex\<close>: every comparison with NaN is false.\<close>

fun js_ge :: "int \<Rightarrow> jsnum \<Rightarrow> bool" where
  "js_ge i NaN = False"
| "js_ge i (Num k) = (i \<ge> k)"

definition missedChunks :: "GenerationTask \<Rightarrow> jsnum \<Rightarrow> TaskChunk list" where
  "missedChunks task fromChunkIndex = filter (\<lambda>c. js_ge (index c) fromChunkIndex) (chunks task)"

definition replayEvents :: "TaskChunk list \<Rightarrow> sse list" where
  "replayEvents cs = map (\<lambda>chunk. Data (ChunkEv (content chunk) (index chunk))) cs"

text \<open>
  \<open>subscribe\<close> returns \<open>null\<close> (\<open>None\<close>) for an unknown task. Otherwise the stream's
  \<open>start(controller)\<close> runs synchronously inside the \<open>ReadableStream\<close> constructor, on a
  fresh controller: it replays, then either signals the terminal state and closes, or adds
  the controller to \<open>task.subscribers\<close>. The result names the new controller.
\<close>

definition subscribe :: "string \<Rightarrow> jsnum \<Rightarrow> world \<Rightarrow> (nat \<times> world) option" where
  "subscribe taskId fromChunkIndex w =
     (case activeTasks w taskId of
        None \<Rightarrow> None
      | Some task \<Rightarrow>
          let c = nextController w;
              replay = replayEvents (missedChunks task fromChunkIndex);
              w1 = w\<lparr>nextController := Suc c\<rparr>
          in if status task = Completed then
               Some (c, w1\<lparr>controllers := (controllers w1)
                         (c := \<lparr>queue = replay @ [Data DoneEv], closed = True\<rparr>)\<rparr>)
             else if status task = Error then
               Some (c, w1\<lparr>controllers := (controllers w1)
                         (c := \<lparr>queue = replay @ [Data (ErrorEv (error task))], closed = True\<rparr>)\<rparr>)
             else
               Some (c, w1\<lparr>controllers := (controllers w1)(c := \<lparr>queue = replay, closed = False\<rparr>),
                           activeTasks := (activeTasks w1)
                             (taskId \<mapsto> task\<lparr>subscribers := set_add c (subscribers task)\<rparr>)\<rparr>))"

text \<open>
  The stream's \<open>cancel()\<close>, run when the consumer of controller \<open>c\<close> disconnects: the
  stream is closed by the cancellation itself, and the callback calls
  \<open>task.subscribers.delete(undefined as any)\<close>.
\<close>

definition cancel :: "string \<Rightarrow> nat \<Rightarrow> world \<Rightarrow> world" where
  "cancel taskId c w =
     (let w1 = w\<lparr>controllers := (controllers w)(c := (controllers w c)\<lparr>closed := True\<rparr>)\<rparr>
      in case activeTasks w1 taskId of
           None \<Rightarrow> w1
         | Some task \<Rightarrow>
             w1\<lparr>activeTasks := (activeTasks w1)
                   (taskId \<mapsto> task\<lparr>subscribers := set_delete None (subscribers task)\<rparr>)\<rparr>)"

text \<open>
  \<open>parseInt(string)\<close> with no radix, after ECMAScript: skip leading white space, take a
  sign, take a \<open>0x\<close>/\<open>0X\<close> prefix as radix 16, read the longest prefix of digits of the
  radix; NaN when there is none.
\<close>

text \<open>
  The white space and line terminators of ECMAScript, as UTF-8 byte sequences: TAB, LF, VT,
  FF, CR, SP, U+00A0, U+1680, U+2000 to U+200A, U+2028, U+2029, U+202F, U+205F, U+3000
  and U+FEFF.
\<close>

definition whiteSpace :: "string list" where
  "whiteSpace =
     [[CHR 0x09], [CHR 0x0A], [CHR 0x0B], [CHR 0x0C], [CHR 0x0D], [CHR 0x20],
      [CHR 0xC2, CHR 0xA0], [CHR 0xE1, CHR 0x9A, CHR 0x80],
      [CHR 0xE2, CHR 0x80, CHR 0x80], [CHR 0xE2, CHR 0x80, CHR 0x81],
      [CHR 0xE2, CHR 0x80, CHR 0x82], [CHR 0xE2, CHR 0x80, CHR 0x83],
      [CHR 0xE2, CHR 0x80, CHR 0x84], [CHR 0xE2, CHR 0x80, CHR 0x85],
      [CHR 0xE2, CHR 0x80, CHR 0x86], [CHR 0xE2, CHR 0x80, CHR 0x87],
      [CHR 0xE2, CHR 0x80, CHR 0x88], [CHR 0xE2, CHR 0x80, CHR 0x89],
      [CHR 0xE2, CHR 0x80, CHR 0x8A], [CHR 0xE2, CHR 0x80, CHR 0xA8],
      [CHR 0xE2, CHR 0x80, CHR 0xA9], [CHR 0xE2, CHR 0x80, CHR 0xAF],
      [CHR 0xE2, CHR 0x81, CHR 0x9F], [CHR 0xE3, CHR 0x80, CHR 0x80],
      [CHR 0xEF, CHR 0xBB, CHR 0xBF]]"

text \<open>Dropping from the front of a string as long as one of the sequences \<open>ps\<close> starts it.\<close>

function skipLeading :: "string list \<Rightarrow> string \<Rightarrow> string" where
  "skipLeading ps s =
     (case find (\<lambda>p. p \<noteq> [] \<and> take (length p) s = p) ps of
        None \<Rightarrow> s
      | Some p \<Rightarrow> skipLeading ps (drop (length p) s))"
  by pat_completeness auto
termination
proof (relation "measure (\<lambda>(ps, s). length s)")
  show "wf (measure (\<lambda>(ps, s). length s))" by simp
next
  fix ps :: "string list" and s p :: string
  assume "find (\<lambda>p. p \<noteq> [] \<and> take (length p) s = p) ps = Some p"
  then have ne: "p \<noteq> []" and tk: "take (length p) s = p" by (auto simp: find_Some_iff)
  have "length (take (length p) s) = min (length p) (length s)" by simp
  with tk have "length p \<le> length s" by simp
  moreover from ne have "0 < length p" by simp
  ultimately have "length s - length p < length s" by arith
  then show "((ps, drop (length p) s), (ps, s)) \<in> measure (\<lambda>(ps, s). length s)" by simp
qed

definition digitValue :: "char \<Rightarrow> nat option" where
  "digitValue c =
     (let n = (of_char c :: nat)
      in if 48 \<le> n \<and> n \<le> 57 then Some (n - 48)
         else if 97 \<le> n \<and> n \<le> 122 then Some (n - 87)
         else if 65 \<le> n \<and> n \<le> 90 then Some (n - 55)
         else None)"

definition isRadixDigit :: "nat \<Rightarrow> char \<Rightarrow> bool" where
  "isRadixDigit R c = (case digitValue c of Some d \<Rightarrow> d < R | None \<Rightarrow> False)"

definition digitsValue :: "nat \<Rightarrow> string \<Rightarrow> nat" where
  "digitsValue R ds = foldl (\<lambda>acc c. acc * R + (case digitValue c of Some d \<Rightarrow> d | None \<Rightarrow> 0)) 0 ds"

definition parseInt :: "string \<Rightarrow> jsnum" where
  "parseInt inputString =
     (let S = skipLeading whiteSpace inputString;
          sign = (if take 1 S = ''-'' then - 1 else (1::int));
          S1 = (if take 1 S = ''+'' \<or> take 1 S = ''-'' then drop 1 S else S);
          hex = (take 2 S1 = ''0x'' \<or> take 2 S1 = ''0X'');
          R = (if hex then 16 else 10);
          S2 = (if hex then drop 2 S1 else S1);
          Z = takeWhile (isRadixDigit R) S2
      in if Z = [] then NaN else Num (sign * int (digitsValue R Z)))"

text \<open>
  \<^verbatim>\<open>
  const fromChunk = parseInt(url.searchParams.get("from") || "0");
  const stream = taskManager.subscribe(taskId, fromChunk);
  \<close>
  \<open>get\<close> returns \<open>null\<close> (\<open>None\<close>) for a missing parameter; \<open>null\<close> and the empty string
  are falsy. \<open>None\<close> as the result is the 404 response.
\<close>

definition fromParam :: "string option \<Rightarrow> string" where
  "fromParam p = (case p of None \<Rightarrow> ''0'' | Some s \<Rightarrow> if s = [] then ''0'' else s)"

definition handleTaskStream :: "string \<Rightarrow> string option \<Rightarrow> world \<Rightarrow> (nat \<times> world) option" where
  "handleTaskStream taskId p w = subscribe taskId (parseInt (fromParam p)) w"

section \<open>Tool gateway (tools.ts, python_executor.ts, websearch.ts)\<close>

definition nl :: char where
  "nl = CHR 0x0A"

text \<open>\<open>String.prototype.trim\<close>: white space is dropped at both ends.\<close>

definition trim :: "string \<Rightarrow> string" where
  "trim s = rev (skipLeading (map rev whiteSpace) (rev (skipLeading whiteSpace s)))"

text \<open>Decimal digits of a number inside a template string.\<close>

fun showNat :: "nat \<Rightarrow> string" where
  "showNat n = (if n < 10 then [''0123456789'' ! n]
                else showNat (n div 10) @ [''0123456789'' ! (n mod 10)])"

record SearchResult =
  title :: string
  link :: string
  snippet :: string
  source :: string

definition formatResult :: "nat \<times> SearchResult \<Rightarrow> string" where
  "formatResult = (\<lambda>(i, r).
     [nl] @ ''['' @ showNat (i + 1) @ ''] '' @ title r
     @ [nl] @ ''Source: '' @ source r @ '' ('' @ link r @ '')''
     @ [nl] @ ''Snippet: '' @ snippet r @ [nl])"

definition formatResultsAsContext :: "SearchResult list \<Rightarrow> string" where
  "formatResultsAsContext results =
     (if length results = 0 then []
      else [nl, nl] @ ''--- Web Search Results (Real-time from Internet) ---'' @ [nl]
           @ concat (map formatResult (enumerate 0 results))
           @ [nl] @ ''--- End of Search Results ---'' @ [nl])"

text \<open>
  What the sandbox does with one piece of code: \<open>Bun.write\<close> or \<open>spawn\<close> throws, the ten
  second timer wins the race, or the process ends with its two outputs; in the last case
  the second cleanup (\<open>exists\<close> then \<open>unlink\<close>) may still throw.
\<close>

datatype py_run =
    WriteFails string
  | SpawnFails string
  | TimesOut
  | Exits string string "string option"

text \<open>
  The collaborators of one task, as oracles: the engine (asked with the iteration number
  and the request body), \<open>JSON.parse(line).message?.content\<close> on a streamed line (\<open>None\<close>
  when the parse throws or there is no content), the two search providers (what the body
  of the \<open>try\<close> of \<open>searchBing\<close> and of \<open>searchWikipedia\<close> gives for a query: the
  scraped results, or a throw, as on a timeout, a network failure or a non-success
  status), the Python sandbox, \<open>db.addMessage\<close> (\<open>Some e\<close> when it throws \<open>e\<close>),
  \<open>JSON.stringify\<close> on a string and \<open>Date.now()\<close>. A sum result has the thrown error's
  message on the left.
\<close>

record response =
  ok :: bool
  http_status :: nat
  body_text :: string
  body_json :: "string + message"
  body_reads :: "string list"
  body_read_error :: "string option"

record env =
  fetch :: "nat \<Rightarrow> request \<Rightarrow> string + response"
  jsonToken :: "string \<Rightarrow> string option"
  bing :: "string option \<Rightarrow> string + SearchResult list"
  wikipedia :: "string option \<Rightarrow> string + SearchResult list"
  runPython :: "string \<Rightarrow> py_run"
  addMessage :: "string \<Rightarrow> string \<Rightarrow> string \<Rightarrow> string option"
  jsonStringify :: "string \<Rightarrow> string"
  now :: nat

definition crossMark :: string where
  "crossMark = [CHR 0xE2, CHR 0x9D, CHR 0x8C]"

definition checkMark :: string where
  "checkMark = [CHR 0xE2, CHR 0x9C, CHR 0x85]"

definition stopwatch :: string where
  "stopwatch = [CHR 0xE2, CHR 0x8F, CHR 0xB1, CHR 0xEF, CHR 0xB8, CHR 0x8F]"

definition hammerAndWrench :: string where
  "hammerAndWrench = [CHR 0xF0, CHR 0x9F, CHR 0x9B, CHR 0xA0, CHR 0xEF, CHR 0xB8, CHR 0x8F]"

text \<open>
  The message of the TypeError that Bun throws when the expression \<open>expr\<close> reads a
  property of \<open>undefined\<close>: \<open>undefined is not an object (evaluating 'expr')\<close>.
\<close>

definition typeError :: "string \<Rightarrow> string" where
  "typeError expr = ''undefined is not an object (evaluating '' @ [CHR 0x27] @ expr @ [CHR 0x27] @ '')''"

text \<open>
  \<open>searchBing\<close> and \<open>searchWikipedia\<close>: the whole body is inside \<open>try\<close>, and the
  \<open>catch\<close> returns the empty list.
\<close>

definition searchBing :: "env \<Rightarrow> string option \<Rightarrow> SearchResult list" where
  "searchBing e query = (case bing e query of Inl m \<Rightarrow> [] | Inr results \<Rightarrow> results)"

definition searchWikipedia :: "env \<Rightarrow> string option \<Rightarrow> SearchResult list" where
  "searchWikipedia e query = (case wikipedia e query of Inl m \<Rightarrow> [] | Inr results \<Rightarrow> results)"

text \<open>
  \<open>finalResults.filter(r => { if (seenLinks.has(r.link)) return false; seenLinks.add(r.link);
  return true; })\<close>: the first result of each link is kept.
\<close>

fun uniqueByLink :: "string list \<Rightarrow> SearchResult list \<Rightarrow> SearchResult list" where
  "uniqueByLink seenLinks [] = []"
| "uniqueByLink seenLinks (r # rs) =
     (if link r \<in> set seenLinks then uniqueByLink seenLinks rs
      else r # uniqueByLink (link r # seenLinks) rs)"

text \<open>
  \<open>searchWeb\<close>: both providers are asked (\<open>Promise.allSettled\<close>; neither promise rejects,
  since each provider catches), Bing's results come first, duplicates by link are
  dropped and at most five results are kept.
\<close>

definition searchWeb :: "env \<Rightarrow> string option \<Rightarrow> SearchResult list" where
  "searchWeb e query =
     (let finalResults = searchBing e query @ searchWikipedia e query;
          uniqueResults = uniqueByLink [] finalResults
      in if length uniqueResults = 0 then [] else take 5 uniqueResults)"

text \<open>
  \<open>executePythonCode\<close>. The first statement, outside the \<open>try\<close>, reads \<open>code.length\<close>;
  everything after it is inside \<open>try { ... } catch (error) { return "System Error" }\<close>.
\<close>

definition executePythonCode :: "env \<Rightarrow> string option \<Rightarrow> string + string" where
  "executePythonCode e code =
     (case code of
        None \<Rightarrow> Inl (typeError ''code.length'')
      | Some src \<Rightarrow>
          (let attempt =
             (case runPython e src of
                WriteFails m \<Rightarrow> Inl m
              | SpawnFails m \<Rightarrow> Inl m
              | TimesOut \<Rightarrow> Inl (stopwatch @ '' Execution timed out (max 10s)'')
              | Exits out err cleanup \<Rightarrow>
                  (let result =
                     (if trim err \<noteq> [] then crossMark @ '' Error:'' @ [nl] @ trim err
                      else if trim out \<noteq> [] then trim out
                      else checkMark @ '' Code executed successfully (no output)'')
                   in case cleanup of Some m \<Rightarrow> Inl m | None \<Rightarrow> Inr result))
           in case attempt of
                Inl m \<Rightarrow> Inr (crossMark @ '' System Error: '' @ m)
              | Inr result \<Rightarrow> Inr result))"

text \<open>
  Reading \<open>args.k\<close>: a TypeError when \<open>args\<close> is undefined, and \<open>undefined\<close> (\<open>None\<close>)
  when the object has no such property.
\<close>

definition getProp :: "jsobj \<Rightarrow> string \<Rightarrow> string + string option" where
  "getProp args k =
     (case args of Undefined \<Rightarrow> Inl (typeError (''args.'' @ k)) | Obj kvs \<Rightarrow> Inr (map_of kvs k))"

text \<open>
  \<open>executeTool\<close>: the two dispatches and the fall-through \<open>return\<close> are inside one
  \<open>try\<close>, whose \<open>catch\<close> returns a string too.
\<close>

definition executeTool :: "env \<Rightarrow> string \<Rightarrow> jsobj \<Rightarrow> string + string" where
  "executeTool e toolName args =
     (let attempt =
        (if toolName = ''web_search'' then
           (case getProp args ''query'' of
              Inl m \<Rightarrow> Inl m
            | Inr query \<Rightarrow> Inr (formatResultsAsContext (searchWeb e query)))
         else if toolName = ''execute_python'' then
           (case getProp args ''code'' of
              Inl m \<Rightarrow> Inl m
            | Inr code \<Rightarrow> executePythonCode e code)
         else Inr (''Error: Unknown tool '' @ [CHR 0x27] @ toolName @ [CHR 0x27]))
      in case attempt of
           Inl m \<Rightarrow> Inr (''Error executing '' @ toolName @ '': '' @ m)
         | Inr result \<Rightarrow> Inr result)"

section \<open>Task runner: streamFromOllama\<close>

text \<open>\<open>buffer.split("\n")\<close>: never empty.\<close>

fun splitLines :: "string \<Rightarrow> string list" where
  "splitLines [] = [[]]"
| "splitLines (c # cs) =
     (if c = nl then [] # splitLines cs
      else (case splitLines cs of [] \<Rightarrow> [[c]] | l # ls \<Rightarrow> (c # l) # ls))"

text \<open>
  The locals of \<open>streamFromOllama\<close> that the loop body updates, with the task and the
  world: \<open>fullText\<close>, \<open>chunkIndex\<close>.
\<close>

type_synonym stream_state = "string \<times> nat \<times> (GenerationTask \<times> world)"

text \<open>
  \<^verbatim>\<open>
  fullText += token;
  const chunk = { content: token, index: chunkIndex++ };
  task.chunks.push(chunk);
  notifySubscribers(task, { type: "chunk", content: token, index: chunk.index });
  \<close>
\<close>

definition pushToken :: "string \<Rightarrow> stream_state \<Rightarrow> stream_state" where
  "pushToken token = (\<lambda>(fullText, chunkIndex, (task, w)).
     let chunk = \<lparr>content = token, index = int chunkIndex\<rparr>;
         task1 = task\<lparr>chunks := chunks task @ [chunk]\<rparr>
     in (fullText @ token, Suc chunkIndex,
         notifySubscribers (ChunkEv token (index chunk)) (task1, w)))"

text \<open>One line: blank lines are skipped, and so are lines whose parse throws or gives no token.\<close>

definition processLine :: "env \<Rightarrow> string \<Rightarrow> stream_state \<Rightarrow> stream_state" where
  "processLine e line s =
     (if trim line = [] then s
      else case jsonToken e line of
             None \<Rightarrow> s
           | Some token \<Rightarrow> if token = [] then s else pushToken token s)"

text \<open>
  One turn of the \<open>while (true)\<close> loop for a read that returned \<open>value\<close>: the last piece
  after the split stays in the buffer, the complete lines are processed.
\<close>

definition readStep :: "env \<Rightarrow> string \<Rightarrow> string \<times> stream_state \<Rightarrow> string \<times> stream_state" where
  "readStep e val = (\<lambda>(buffer, s).
     case rev (splitLines (buffer @ val)) of
       [] \<Rightarrow> ([], s)
     | l # ls \<Rightarrow> (l, fold (processLine e) (rev ls) s))"

definition streamReads :: "env \<Rightarrow> string list \<Rightarrow> GenerationTask \<times> world \<Rightarrow> string \<times> stream_state" where
  "streamReads e reads = (\<lambda>(task, w).
     fold (readStep e) reads ([], ([], length (chunks task), (task, w))))"

text \<open>
  \<open>streamFromOllama\<close>: the reads of the body, then either \<open>reader.read()\<close> rejects or
  the stream is done, the rest of the buffer is processed and \<open>fullText\<close> is returned.
\<close>

definition streamFromOllama ::
    "env \<Rightarrow> response \<Rightarrow> GenerationTask \<times> world \<Rightarrow> (string + string) \<times> (GenerationTask \<times> world)" where
  "streamFromOllama e resp st =
     (case streamReads e (body_reads resp) st of
        (buffer, s) \<Rightarrow>
          (case body_read_error resp of
             Some m \<Rightarrow> (Inl m, snd (snd s))
           | None \<Rightarrow>
               (case processLine e buffer s of
                  (fullText, chunkIndex, st') \<Rightarrow> (Inr fullText, st'))))"

section \<open>Task runner: processTask\<close>

definition MAX_ITERATIONS :: nat where
  "MAX_ITERATIONS = 5"

definition availableTools :: "string list" where
  "availableTools = [''web_search'', ''execute_python'']"

text \<open>
  \<^verbatim>\<open>
  if (useSearch) { const t = availableTools.find(t => t.function.name === "web_search");
                   if (t) activeTools.push(t); }
  if (useCode)   { ... "execute_python" ... }
  \<close>
\<close>

definition activeToolsOf :: "bool \<Rightarrow> bool \<Rightarrow> string list" where
  "activeToolsOf useSearch useCode =
     (if useSearch then (case find (\<lambda>t. t = ''web_search'') availableTools of
                           Some t \<Rightarrow> [t] | None \<Rightarrow> [])
      else [])
     @ (if useCode then (case find (\<lambda>t. t = ''execute_python'') availableTools of
                           Some t \<Rightarrow> [t] | None \<Rightarrow> [])
        else [])"

definition logCall :: "call \<Rightarrow> GenerationTask \<times> world \<Rightarrow> GenerationTask \<times> world" where
  "logCall c = (\<lambda>(task, w). (task, w\<lparr>calls := calls w @ [c]\<rparr>))"

text \<open>The notice text \<open>\n\n*> <hammer and wrench> Executing ${funcName}...*\n\n\<close>.\<close>

definition toolNotice :: "string \<Rightarrow> string" where
  "toolNotice funcName =
     [nl, nl] @ ''*> '' @ hammerAndWrench @ '' Executing '' @ funcName @ ''...*'' @ [nl, nl]"

text \<open>
  \<^verbatim>\<open>
  for (const tool of message.tool_calls) {
      notifySubscribers(task, { type: "chunk", content: `...Executing ${funcName}...`, index: -1 });
      const result = await executeTool(funcName, funcArgs);
      messages.push({ role: "tool", content: JSON.stringify(result) });
  }
  \<close>
  An exception of \<open>executeTool\<close> would leave the loop and reject \<open>processTask\<close>.
\<close>

fun runTools ::
    "env \<Rightarrow> tool_call list \<Rightarrow> message list \<Rightarrow> GenerationTask \<times> world
       \<Rightarrow> string option \<times> message list \<times> (GenerationTask \<times> world)" where
  "runTools e [] messages st = (None, messages, st)"
| "runTools e (tool # rest) messages st =
     (let funcName = fn_name tool;
          funcArgs = fn_arguments tool;
          st1 = notifySubscribers (ChunkEv (toolNotice funcName) (- 1)) st;
          st2 = logCall (ToolExec funcName funcArgs) st1
      in case executeTool e funcName funcArgs of
           Inl m \<Rightarrow> (Some m, messages, st2)
         | Inr result \<Rightarrow>
             runTools e rest (messages @ [Message ''tool'' (jsonStringify e result) []]) st2)"

text \<open>
  How one turn of \<open>while (iteration < MAX_ITERATIONS)\<close> ends: \<open>break\<close>, \<open>continue\<close> with
  the grown message history, or a thrown error.
\<close>

datatype turn =
    Break "GenerationTask \<times> world"
  | Continue "message list" "GenerationTask \<times> world"
  | Throw string "GenerationTask \<times> world"

definition requestBody :: "bool \<Rightarrow> bool \<Rightarrow> nat \<Rightarrow> message list \<Rightarrow> request" where
  "requestBody useSearch useCode iteration messages =
     (let activeTools = activeToolsOf useSearch useCode;
          hasTools = length activeTools > 0;
          shouldStream = (\<not> hasTools \<or> iteration > 1)
      in \<lparr>req_messages = messages, req_stream = shouldStream,
          req_tools = (if hasTools \<and> iteration = 1 then Some activeTools else None)\<rparr>)"

text \<open>The body of the loop, with \<open>iteration\<close> already incremented.\<close>

definition iterationBody ::
    "env \<Rightarrow> bool \<Rightarrow> bool \<Rightarrow> nat \<Rightarrow> message list \<Rightarrow> GenerationTask \<times> world \<Rightarrow> turn" where
  "iterationBody e useSearch useCode iteration messages st =
     (let body = requestBody useSearch useCode iteration messages;
          shouldStream = req_stream body;
          st1 = logCall (EngineCall body) st
      in case fetch e iteration body of
           Inl m \<Rightarrow> Throw m st1
         | Inr resp \<Rightarrow>
             if \<not> ok resp then
               Throw (''Ollama error ('' @ showNat (http_status resp) @ ''): '' @ body_text resp) st1
             else if shouldStream then
               (case streamFromOllama e resp st1 of
                  (Inl m, st2) \<Rightarrow> Throw m st2
                | (Inr text, (task, w)) \<Rightarrow>
                    Break (task\<lparr>fullResponse := fullResponse task @ text\<rparr>, w))
             else
               (case body_json resp of
                  Inl m \<Rightarrow> Throw m st1
                | Inr msg \<Rightarrow>
                    if length (tool_calls msg) > 0 then
                      (case runTools e (tool_calls msg) (messages @ [msg]) st1 of
                         (Some m, messages', st2) \<Rightarrow> Throw m st2
                       | (None, messages', st2) \<Rightarrow> Continue messages' st2)
                    else
                      (case st1 of (task, w) \<Rightarrow>
                         let text = msg_content msg;
                             task1 = task\<lparr>fullResponse := fullResponse task @ text\<rparr>;
                             chunk = \<lparr>content = text, index = int (length (chunks task1))\<rparr>;
                             task2 = task1\<lparr>chunks := chunks task1 @ [chunk]\<rparr>
                         in Break (notifySubscribers (ChunkEv text (index chunk)) (task2, w)))))"

text \<open>
  The loop: the thrown error if any, the final value of \<open>iteration\<close>, and the state.
\<close>

function taskLoop ::
    "env \<Rightarrow> bool \<Rightarrow> bool \<Rightarrow> nat \<Rightarrow> message list \<Rightarrow> GenerationTask \<times> world
       \<Rightarrow> string option \<times> nat \<times> (GenerationTask \<times> world)" where
  "taskLoop e useSearch useCode iteration messages st =
     (if iteration < MAX_ITERATIONS then
        (case iterationBody e useSearch useCode (Suc iteration) messages st of
           Break st' \<Rightarrow> (None, Suc iteration, st')
         | Throw m st' \<Rightarrow> (Some m, Suc iteration, st')
         | Continue messages' st' \<Rightarrow> taskLoop e useSearch useCode (Suc iteration) messages' st')
      else (None, iteration, st))"
  by pat_completeness auto
termination
  by (relation "measure (\<lambda>(e, useSearch, useCode, iteration, messages, st). MAX_ITERATIONS - iteration)")
     auto

text \<open>
  After the loop: the task is marked completed, the answer is stored if it is not empty
  (\<open>db.addMessage\<close> may throw), subscribers get \<open>done\<close> and are closed, and the deletion
  from the registry is scheduled, five minutes later.
\<close>

definition finishTask :: "GenerationTask \<times> world \<Rightarrow> GenerationTask \<times> world" where
  "finishTask st =
     (case closeSubscribers (notifySubscribers DoneEv st) of
        (task, w) \<Rightarrow> (task, w\<lparr>timers := timers w @ [(5 * 60 * 1000, task_id task)]\<rparr>))"

definition completeTask ::
    "env \<Rightarrow> GenerationTask \<times> world \<Rightarrow> string option \<times> (GenerationTask \<times> world)" where
  "completeTask e = (\<lambda>(task, w).
     let task1 = task\<lparr>status := Completed, completedAt := Some (now e)\<rparr>
     in if fullResponse task1 \<noteq> [] then
          (case logCall (DbAddMessage (conversationId task1) ''assistant'' (fullResponse task1)) (task1, w) of
             (task2, w2) \<Rightarrow>
               (case addMessage e (conversationId task2) ''assistant'' (fullResponse task2) of
                  Some m \<Rightarrow> (Some m, (task2, w2))
                | None \<Rightarrow>
                    (None, finishTask (task2, w2\<lparr>db := db w2 @
                       [(conversationId task2, ''assistant'', fullResponse task2)]\<rparr>))))
        else (None, finishTask (task1, w)))"

text \<open>
  The callback of the heartbeat timer (\<open>setInterval\<close>, every thirty seconds, cleared in
  \<open>finally\<close>): the comment line is enqueued on every subscriber, and a throwing
  \<open>enqueue\<close> is ignored, the subscriber staying in the set.
\<close>

definition keepAlive :: "GenerationTask \<times> world \<Rightarrow> GenerationTask \<times> world" where
  "keepAlive = (\<lambda>(task, w).
     (task, fold (\<lambda>c w. case enqueue KeepAlive (controllers w c) of
                          Some c' \<Rightarrow> w\<lparr>controllers := (controllers w)(c := c')\<rparr>
                        | None \<Rightarrow> w)
                 (subscribers task) w))"

text \<open>
  \<open>processTask\<close>: \<open>Some m\<close> when the promise rejects with message \<open>m\<close>. The run is the
  one in which no timer fires before the task has settled: \<open>keepAlive\<close> touches nothing
  but the subscribers' queues.
\<close>

definition processTask ::
    "env \<Rightarrow> GenerationTask \<Rightarrow> message list \<Rightarrow> bool \<Rightarrow> bool \<Rightarrow> world
       \<Rightarrow> string option \<times> (GenerationTask \<times> world)" where
  "processTask e task messages useSearch useCode w =
     (case taskLoop e useSearch useCode 0 messages (task, w) of
        (Some m, iteration, st) \<Rightarrow> (Some m, st)
      | (None, iteration, st) \<Rightarrow> completeTask e st)"

section \<open>Task registry: startTask\<close>

text \<open>
  \<open>startTask\<close> creates the task under the identifier \<open>crypto.randomUUID()\<close> gave, puts it
  in the registry and returns at the first \<open>await\<close> of \<open>processTask\<close>.
\<close>

definition newTask :: "string \<Rightarrow> string \<Rightarrow> nat \<Rightarrow> GenerationTask" where
  "newTask taskId conv t =
     \<lparr>task_id = taskId, conversationId = conv, status = Running, chunks = [],
      fullResponse = [], error = None, createdAt = t, completedAt = None, subscribers = []\<rparr>"

definition startTask :: "env \<Rightarrow> string \<Rightarrow> string \<Rightarrow> world \<Rightarrow> string \<times> world" where
  "startTask e taskId conv w =
     (taskId, w\<lparr>activeTasks := (activeTasks w)(taskId \<mapsto> newTask taskId conv (now e))\<rparr>)"

text \<open>
  The handler of \<open>processTask(...).catch((err) => ...)\<close>.
\<close>

definition onRejected :: "string \<Rightarrow> GenerationTask \<times> world \<Rightarrow> GenerationTask \<times> world" where
  "onRejected m = (\<lambda>(task, w).
     closeSubscribers (notifySubscribers (ErrorEv (Some m)) (task\<lparr>status := Error, error := Some m\<rparr>, w)))"

text \<open>
  The background promise of one task, settled: \<open>processTask\<close>, then the \<open>catch\<close> handler
  when it rejected. The task object is the one the registry holds under its id, so
  the result is written back there.
\<close>

definition runTask ::
    "env \<Rightarrow> GenerationTask \<Rightarrow> message list \<Rightarrow> bool \<Rightarrow> bool \<Rightarrow> world \<Rightarrow> GenerationTask \<times> world" where
  "runTask e task messages useSearch useCode w =
     (case processTask e task messages useSearch useCode w of
        (None, st) \<Rightarrow> st
      | (Some m, st) \<Rightarrow> onRejected m st)"

definition runRegistered :: "env \<Rightarrow> string \<Rightarrow> message list \<Rightarrow> bool \<Rightarrow> bool \<Rightarrow> world \<Rightarrow> world" where
  "runRegistered e taskId messages useSearch useCode w =
     (case activeTasks w taskId of
        None \<Rightarrow> w
      | Some task \<Rightarrow>
          (case runTask e task messages useSearch useCode w of
             (task', w') \<Rightarrow> w'\<lparr>activeTasks := (activeTasks w')(taskId \<mapsto> task')\<rparr>))"

text \<open>A pending timer fires: \<open>activeTasks.delete(task.id)\<close>.\<close>

definition fireTimers :: "world \<Rightarrow> world" where
  "fireTimers w =
     w\<lparr>activeTasks := fold (\<lambda>(delay, taskId) m. m(taskId := None)) (timers w) (activeTasks w),
       timers := []\<rparr>"

section \<open>Notions used in the statements\<close>

text \<open>What \<open>subscribe\<close> sends after the replay: nothing for a running task.\<close>

definition terminalSignal :: "GenerationTask \<Rightarrow> sse list" where
  "terminalSignal task =
     (case status task of
        Running \<Rightarrow> []
      | Completed \<Rightarrow> [Data DoneEv]
      | Error \<Rightarrow> [Data (ErrorEv (error task))])"

text \<open>
  A broadcast of \<open>msg\<close> to the controllers \<open>cs\<close>: the open ones get it at the end of their
  queue.
\<close>

definition deliver :: "sse \<Rightarrow> nat list \<Rightarrow> (nat \<Rightarrow> controller) \<Rightarrow> nat \<Rightarrow> controller" where
  "deliver msg cs ctl = (\<lambda>c. if c \<in> set cs \<and> \<not> closed (ctl c)
                               then (ctl c)\<lparr>queue := queue (ctl c) @ [msg]\<rparr> else ctl c)"

text \<open>
  Controller \<open>c\<close> is a live subscriber of the task: a member of the subscriber set (a set
  has no duplicates) whose stream is open.
\<close>

definition attached :: "nat \<Rightarrow> GenerationTask \<times> world \<Rightarrow> bool" where
  "attached c = (\<lambda>(task, w). distinct (subscribers task) \<and> c \<in> set (subscribers task)
                                 \<and> \<not> closed (controllers w c))"

text \<open>
  For the tool calls of one engine message: the text each call gives back, the history
  entries, the gateway invocations and the notices of \<open>runTools\<close>.
\<close>

definition toolResult :: "env \<Rightarrow> tool_call \<Rightarrow> string" where
  "toolResult e tool = (case executeTool e (fn_name tool) (fn_arguments tool) of
                          Inl m \<Rightarrow> m | Inr result \<Rightarrow> result)"

definition toolMessages :: "env \<Rightarrow> tool_call list \<Rightarrow> message list" where
  "toolMessages e tools = map (\<lambda>tool. Message ''tool'' (jsonStringify e (toolResult e tool)) []) tools"

definition toolExecs :: "tool_call list \<Rightarrow> call list" where
  "toolExecs tools = map (\<lambda>tool. ToolExec (fn_name tool) (fn_arguments tool)) tools"

definition noticeEvents :: "tool_call list \<Rightarrow> sse list" where
  "noticeEvents tools = map (\<lambda>tool. Data (ChunkEv (toolNotice (fn_name tool)) (- 1))) tools"

text \<open>
  How the background promise settles after the loop returned \<open>r\<close>: the rest of
  \<open>processTask\<close> and the \<open>catch\<close> handler, as \<open>runTask\<close> composes them.
\<close>

definition settle :: "env \<Rightarrow> string option \<Rightarrow> GenerationTask \<times> world \<Rightarrow> GenerationTask \<times> world" where
  "settle e r st =
     (case r of
        Some m \<Rightarrow> onRejected m st
      | None \<Rightarrow> (case completeTask e st of (None, st') \<Rightarrow> st' | (Some m, st') \<Rightarrow> onRejected m st'))"

text \<open>The stored text of a task is the text of its fragments, in order.\<close>

definition textMatches :: "GenerationTask \<Rightarrow> bool" where
  "textMatches task \<longleftrightarrow> fullResponse task = concat (map content (chunks task))"

text \<open>
  What a turn of the loop, and the loop itself, leave alone: the task's identity, status
  and error, the stored messages and the pending timers.
\<close>

definition unchanged :: "GenerationTask \<times> world \<Rightarrow> GenerationTask \<times> world \<Rightarrow> bool" where
  "unchanged = (\<lambda>(t, w) (t', w').
     task_id t' = task_id t \<and> conversationId t' = conversationId t \<and> status t' = status t \<and>
     error t' = error t \<and> db w' = db w \<and> timers w' = timers w)"

fun turnState :: "turn \<Rightarrow> GenerationTask \<times> world" where
  "turnState (Break st) = st"
| "turnState (Continue messages st) = st"
| "turnState (Throw m st) = st"

text \<open>The fragments of a task are numbered \<open>0, 1, 2, ...\<close> in the order they are stored.\<close>

definition indexed :: "GenerationTask \<Rightarrow> bool" where
  "indexed task \<longleftrightarrow> map index (chunks task) = map int [0..<length (chunks task)]"

subsection \<open>Concrete tasks, worlds and collaborators\<close>

definition openController :: controller where
  "openController = \<lparr>queue = [], closed = False\<rparr>"

text \<open>A task just created, with one subscriber (controller 0) attached.\<close>

definition freshTask :: GenerationTask where
  "freshTask = (newTask ''t1'' ''conv1'' 0)\<lparr>subscribers := [0]\<rparr>"

definition freshWorld :: world where
  "freshWorld = \<lparr>activeTasks = [''t1'' \<mapsto> freshTask], controllers = (\<lambda>c. openController),
                 nextController = 1, db = [], timers = [], calls = []\<rparr>"

text \<open>The same task in the middle of a stream, two fragments in.\<close>

definition midTask :: GenerationTask where
  "midTask = freshTask\<lparr>chunks := [\<lparr>content = ''Hel'', index = 0\<rparr>, \<lparr>content = ''lo'', index = 1\<rparr>]\<rparr>"

definition midWorld :: world where
  "midWorld = freshWorld\<lparr>activeTasks := [''t1'' \<mapsto> midTask]\<rparr>"

text \<open>
  An engine that streams the two lines \<open>a\<close> and \<open>b\<close> in two reads, cut in the middle of
  the second line; they parse to the tokens \<open>Hel\<close> and \<open>lo\<close>.
\<close>

definition streamResponse :: response where
  "streamResponse = \<lparr>ok = True, http_status = 200, body_text = [], body_json = Inl ''not JSON'',
                     body_reads = [''a'' @ [nl] @ ''b'', [nl]], body_read_error = None\<rparr>"

definition toolCallResponse :: response where
  "toolCallResponse = \<lparr>ok = True, http_status = 200, body_text = [],
     body_json = Inr (Message ''assistant'' [] [ToolCall ''execute_python'' (Obj [(''code'', ''print(2+2)'')])]),
     body_reads = [], body_read_error = None\<rparr>"

definition failResponse :: response where
  "failResponse = \<lparr>ok = False, http_status = 500, body_text = ''boom'', body_json = Inl ''not JSON'',
                   body_reads = [], body_read_error = None\<rparr>"

definition streamEnv :: env where
  "streamEnv = \<lparr>fetch = (\<lambda>i req. Inr streamResponse),
                jsonToken = (\<lambda>l. if l = ''a'' then Some ''Hel'' else if l = ''b'' then Some ''lo'' else None),
                bing = (\<lambda>q. Inr []),
                wikipedia = (\<lambda>q. Inr []),
                runPython = (\<lambda>src. Exits ''4'' [] None),
                addMessage = (\<lambda>conv r text. None),
                jsonStringify = (\<lambda>s. [CHR 0x22] @ s @ [CHR 0x22]),
                now = 7\<rparr>"

definition toolEnv :: env where
  "toolEnv = streamEnv\<lparr>fetch := (\<lambda>i req. if req_stream req then Inr streamResponse
                                            else Inr toolCallResponse)\<rparr>"

definition failEnv :: env where
  "failEnv = streamEnv\<lparr>fetch := (\<lambda>i req. Inr failResponse)\<rparr>"


definition dbFailEnv :: env where
  "dbFailEnv = streamEnv\<lparr>addMessage := (\<lambda>conv r text. Some ''database is locked'')\<rparr>"

declare taskLoop.simps [simp del]

declare showNat.simps [simp del]

declare skipLeading.simps [simp del]

section \<open>Broadcast and close\<close>

lemma notifyOne_frame:
  "\<exists>subs ctl. notifyOne msg c (task, w) = (task\<lparr>subscribers := subs\<rparr>, w\<lparr>controllers := ctl\<rparr>)"
proof (cases "enqueue msg (controllers w c)")
  case None
  then have "notifyOne msg c (task, w)
      = (task\<lparr>subscribers := removeAll c (subscribers task)\<rparr>, w\<lparr>controllers := controllers w\<rparr>)"
    by (simp add: notifyOne_def)
  then show ?thesis by blast
next
  case (Some c')
  then have "notifyOne msg c (task, w)
      = (task\<lparr>subscribers := subscribers task\<rparr>, w\<lparr>controllers := (controllers w)(c := c')\<rparr>)"
    by (simp add: notifyOne_def)
  then show ?thesis by blast
qed

lemma notify_fold_frame:
  "\<exists>subs ctl. fold (notifyOne msg) cs (task, w) = (task\<lparr>subscribers := subs\<rparr>, w\<lparr>controllers := ctl\<rparr>)"
proof (induction cs arbitrary: task w)
  case Nil
  have "fold (notifyOne msg) [] (task, w)
      = (task\<lparr>subscribers := subscribers task\<rparr>, w\<lparr>controllers := controllers w\<rparr>)" by simp
  then show ?case by blast
next
  case (Cons c cs)
  obtain s1 c1 where one: "notifyOne msg c (task, w) = (task\<lparr>subscribers := s1\<rparr>, w\<lparr>controllers := c1\<rparr>)"
    using notifyOne_frame by blast
  obtain s2 c2 where rest: "fold (notifyOne msg) cs (task\<lparr>subscribers := s1\<rparr>, w\<lparr>controllers := c1\<rparr>)
      = (task\<lparr>subscribers := s1\<rparr>\<lparr>subscribers := s2\<rparr>, w\<lparr>controllers := c1\<rparr>\<lparr>controllers := c2\<rparr>)"
    using Cons.IH by blast
  have "fold (notifyOne msg) (c # cs) (task, w) = (task\<lparr>subscribers := s2\<rparr>, w\<lparr>controllers := c2\<rparr>)"
    using one rest by simp
  then show ?case by blast
qed

lemma notifySubscribers_frame:
  "\<exists>subs ctl. notifySubscribers ev (task, w) = (task\<lparr>subscribers := subs\<rparr>, w\<lparr>controllers := ctl\<rparr>)"
  using notify_fold_frame by (simp add: notifySubscribers_def)

lemma closeOne_frame: "\<exists>ctl. closeOne c w = w\<lparr>controllers := ctl\<rparr>"
proof (cases "close (controllers w c)")
  case None
  then have "closeOne c w = w\<lparr>controllers := controllers w\<rparr>" by (simp add: closeOne_def)
  then show ?thesis by blast
next
  case (Some c')
  then show ?thesis by (auto simp: closeOne_def)
qed

lemma close_fold_frame: "\<exists>ctl. fold closeOne cs w = w\<lparr>controllers := ctl\<rparr>"
proof (induction cs arbitrary: w)
  case Nil
  have "fold closeOne [] w = w\<lparr>controllers := controllers w\<rparr>" by simp
  then show ?case by blast
next
  case (Cons c cs)
  obtain c1 where one: "closeOne c w = w\<lparr>controllers := c1\<rparr>" using closeOne_frame by blast
  obtain c2 where "fold closeOne cs (w\<lparr>controllers := c1\<rparr>) = w\<lparr>controllers := c1\<rparr>\<lparr>controllers := c2\<rparr>"
    using Cons.IH by blast
  with one have "fold closeOne (c # cs) w = w\<lparr>controllers := c2\<rparr>" by simp
  then show ?case by blast
qed

lemma closeSubscribers_frame:
  "\<exists>ctl. closeSubscribers (task, w) = (task\<lparr>subscribers := []\<rparr>, w\<lparr>controllers := ctl\<rparr>)"
  using close_fold_frame by (simp add: closeSubscribers_def)

text \<open>The broadcast on a duplicate-free subscriber list, in closed form.\<close>

lemma notify_fold_eq:
  "distinct cs \<Longrightarrow>
   fold (notifyOne msg) cs (task, w) =
     (task\<lparr>subscribers := filter (\<lambda>c. c \<notin> set cs \<or> \<not> closed (controllers w c)) (subscribers task)\<rparr>,
      w\<lparr>controllers := deliver msg cs (controllers w)\<rparr>)"
proof (induction cs arbitrary: task w)
  case Nil
  have "deliver msg [] (controllers w) = controllers w" by (simp add: deliver_def)
  then show ?case by simp
next
  case (Cons c cs)
  then have dist: "distinct cs" and notin: "c \<notin> set cs" by simp_all
  show ?case
  proof (cases "closed (controllers w c)")
    case True
    then have one: "notifyOne msg c (task, w) = (task\<lparr>subscribers := removeAll c (subscribers task)\<rparr>, w)"
      by (simp add: notifyOne_def enqueue_def)
    have subs: "filter (\<lambda>x. x \<notin> set cs \<or> \<not> closed (controllers w x)) (removeAll c (subscribers task))
              = filter (\<lambda>x. x \<notin> set (c # cs) \<or> \<not> closed (controllers w x)) (subscribers task)"
      unfolding removeAll_filter_not_eq filter_filter using True by (intro filter_cong) auto
    have ctl: "deliver msg cs (controllers w) = deliver msg (c # cs) (controllers w)"
      using True by (auto simp: deliver_def fun_eq_iff)
    have "fold (notifyOne msg) (c # cs) (task, w)
            = fold (notifyOne msg) cs (task\<lparr>subscribers := removeAll c (subscribers task)\<rparr>, w)"
      using one by simp
    also have "\<dots> = (task\<lparr>subscribers := removeAll c (subscribers task)\<rparr>
                         \<lparr>subscribers := filter (\<lambda>x. x \<notin> set cs \<or> \<not> closed (controllers w x))
                             (subscribers (task\<lparr>subscribers := removeAll c (subscribers task)\<rparr>))\<rparr>,
                       w\<lparr>controllers := deliver msg cs (controllers w)\<rparr>)"
      by (rule Cons.IH [OF dist])
    also have "\<dots> = (task\<lparr>subscribers := filter (\<lambda>x. x \<notin> set (c # cs) \<or> \<not> closed (controllers w x)) (subscribers task)\<rparr>,
                       w\<lparr>controllers := deliver msg (c # cs) (controllers w)\<rparr>)"
      using subs ctl by simp
    finally show ?thesis .
  next
    case False
    let ?w1 = "w\<lparr>controllers := (controllers w)(c := (controllers w c)\<lparr>queue := queue (controllers w c) @ [msg]\<rparr>)\<rparr>"
    from False have one: "notifyOne msg c (task, w) = (task, ?w1)"
      by (simp add: notifyOne_def enqueue_def)
    have subs: "filter (\<lambda>x. x \<notin> set cs \<or> \<not> closed (controllers ?w1 x)) (subscribers task)
              = filter (\<lambda>x. x \<notin> set (c # cs) \<or> \<not> closed (controllers w x)) (subscribers task)"
      using False by (intro filter_cong) auto
    have ctl: "deliver msg cs (controllers ?w1) = deliver msg (c # cs) (controllers w)"
      using False notin by (auto simp: deliver_def fun_eq_iff)
    have e1: "?w1\<lparr>controllers := deliver msg cs (controllers ?w1)\<rparr>
            = w\<lparr>controllers := deliver msg (c # cs) (controllers w)\<rparr>"
      by (simp only: ctl) simp
    have "fold (notifyOne msg) (c # cs) (task, w) = fold (notifyOne msg) cs (task, ?w1)"
      using one by simp
    also have "\<dots> = (task\<lparr>subscribers := filter (\<lambda>x. x \<notin> set cs \<or> \<not> closed (controllers ?w1 x)) (subscribers task)\<rparr>,
                       ?w1\<lparr>controllers := deliver msg cs (controllers ?w1)\<rparr>)"
      by (rule Cons.IH [OF dist])
    finally show ?thesis by (simp only: subs e1)
  qed
qed

lemma notifySubscribers_eq:
  "distinct (subscribers task) \<Longrightarrow>
   notifySubscribers ev (task, w) =
     (task\<lparr>subscribers := filter (\<lambda>c. \<not> closed (controllers w c)) (subscribers task)\<rparr>,
      w\<lparr>controllers := deliver (Data ev) (subscribers task) (controllers w)\<rparr>)"
proof -
  assume d: "distinct (subscribers task)"
  have "filter (\<lambda>c. c \<notin> set (subscribers task) \<or> \<not> closed (controllers w c)) (subscribers task)
      = filter (\<lambda>c. \<not> closed (controllers w c)) (subscribers task)"
    by (intro filter_cong) auto
  with notify_fold_eq [OF d, of "Data ev" task w] show ?thesis
    by (simp add: notifySubscribers_def)
qed

lemma notifySubscribers_attached:
  assumes "attached c (task, w)" and "notifySubscribers ev (task, w) = (task', w')"
  shows "attached c (task', w') \<and> queue (controllers w' c) = queue (controllers w c) @ [Data ev]"
proof -
  from assms(1) have d: "distinct (subscribers task)" and m: "c \<in> set (subscribers task)"
    and o: "\<not> closed (controllers w c)" by (simp_all add: attached_def)
  from notifySubscribers_eq [OF d, of ev w] assms(2)
  have t: "task' = task\<lparr>subscribers := filter (\<lambda>c. \<not> closed (controllers w c)) (subscribers task)\<rparr>"
    and w: "w' = w\<lparr>controllers := deliver (Data ev) (subscribers task) (controllers w)\<rparr>" by simp_all
  show ?thesis using d m o by (simp add: t w attached_def deliver_def)
qed

subsection \<open>closeSubscribers\<close>

lemma close_fold_eq:
  "controllers (fold closeOne cs w) c =
     (if c \<in> set cs \<and> \<not> closed (controllers w c) then (controllers w c)\<lparr>closed := True\<rparr>
      else controllers w c)"
proof (induction cs arbitrary: w)
  case Nil
  then show ?case by simp
next
  case (Cons a cs)
  show ?case
  proof (cases "closed (controllers w a)")
    case True
    then have "closeOne a w = w" by (simp add: closeOne_def close_def)
    with True show ?thesis by (auto simp: Cons.IH)
  next
    case False
    then have "closeOne a w = w\<lparr>controllers := (controllers w)(a := (controllers w a)\<lparr>closed := True\<rparr>)\<rparr>"
      by (simp add: closeOne_def close_def)
    with False show ?thesis by (auto simp: Cons.IH)
  qed
qed

lemma closeSubscribers_attached:
  assumes "attached c (task, w)" and "closeSubscribers (task, w) = (task', w')"
  shows "closed (controllers w' c) \<and> queue (controllers w' c) = queue (controllers w c)"
  using assms by (auto simp: attached_def closeSubscribers_def close_fold_eq)

subsection \<open>The tool gateway returns\<close>

lemma executePythonCode_Some: "\<exists>s. executePythonCode e (Some src) = Inr s"
  by (simp add: executePythonCode_def Let_def split: py_run.splits option.splits)

lemma executeTool_Inr: "\<exists>s. executeTool e toolName args = Inr s"
  by (simp add: executeTool_def Let_def split: sum.splits)

lemma runTools_frame:
  "\<exists>subs ctl. runTools e tools messages (task, w) =
     (None, messages @ toolMessages e tools,
      (task\<lparr>subscribers := subs\<rparr>, w\<lparr>controllers := ctl, calls := calls w @ toolExecs tools\<rparr>))"
proof (induction tools arbitrary: messages task w)
  case Nil
  have "runTools e [] messages (task, w) =
     (None, messages @ toolMessages e [],
      (task\<lparr>subscribers := subscribers task\<rparr>, w\<lparr>controllers := controllers w, calls := calls w @ toolExecs []\<rparr>))"
    by (simp add: toolMessages_def toolExecs_def)
  then show ?case by blast
next
  case (Cons tool rest)
  obtain s1 c1 where n: "notifySubscribers (ChunkEv (toolNotice (fn_name tool)) (- 1)) (task, w)
      = (task\<lparr>subscribers := s1\<rparr>, w\<lparr>controllers := c1\<rparr>)"
    using notifySubscribers_frame by blast
  obtain result where r: "executeTool e (fn_name tool) (fn_arguments tool) = Inr result"
    using executeTool_Inr by blast
  let ?w1 = "w\<lparr>controllers := c1, calls := calls w @ [ToolExec (fn_name tool) (fn_arguments tool)]\<rparr>"
  let ?m1 = "messages @ [Message ''tool'' (jsonStringify e result) []]"
  have step: "runTools e (tool # rest) messages (task, w)
      = runTools e rest ?m1 (task\<lparr>subscribers := s1\<rparr>, ?w1)"
    by (simp add: Let_def n r logCall_def)
  obtain s2 c2 where rest: "runTools e rest ?m1 (task\<lparr>subscribers := s1\<rparr>, ?w1) =
     (None, ?m1 @ toolMessages e rest,
      (task\<lparr>subscribers := s1\<rparr>\<lparr>subscribers := s2\<rparr>, ?w1\<lparr>controllers := c2, calls := calls ?w1 @ toolExecs rest\<rparr>))"
    using Cons.IH by blast
  have "runTools e (tool # rest) messages (task, w) =
     (None, messages @ toolMessages e (tool # rest),
      (task\<lparr>subscribers := s2\<rparr>, w\<lparr>controllers := c2, calls := calls w @ toolExecs (tool # rest)\<rparr>))"
    unfolding step rest by (simp add: toolMessages_def toolExecs_def toolResult_def r)
  then show ?case by blast
qed

lemma runTools_attached:
  assumes "attached c (task, w)"
      and "runTools e tools messages (task, w) = (r, messages', (task', w'))"
  shows "attached c (task', w') \<and> queue (controllers w' c) = queue (controllers w c) @ noticeEvents tools"
  using assms
proof (induction tools arbitrary: messages task w)
  case Nil
  then show ?case by (simp add: noticeEvents_def)
next
  case (Cons tool rest)
  obtain t1 w1 where n: "notifySubscribers (ChunkEv (toolNotice (fn_name tool)) (- 1)) (task, w) = (t1, w1)"
    by (cases "notifySubscribers (ChunkEv (toolNotice (fn_name tool)) (- 1)) (task, w)")
  from notifySubscribers_attached [OF Cons.prems(1) n]
  have a1: "attached c (t1, w1)"
    and q1: "queue (controllers w1 c) = queue (controllers w c) @ [Data (ChunkEv (toolNotice (fn_name tool)) (- 1))]"
    by simp_all
  obtain result where r: "executeTool e (fn_name tool) (fn_arguments tool) = Inr result"
    using executeTool_Inr by blast
  let ?w2 = "w1\<lparr>calls := calls w1 @ [ToolExec (fn_name tool) (fn_arguments tool)]\<rparr>"
  have a2: "attached c (t1, ?w2)" using a1 by (simp add: attached_def)
  have step: "runTools e (tool # rest) messages (task, w)
      = runTools e rest (messages @ [Message ''tool'' (jsonStringify e result) []]) (t1, ?w2)"
    by (simp add: Let_def n r logCall_def)
  from Cons.IH [OF a2] Cons.prems(2) step
  have "attached c (task', w') \<and> queue (controllers w' c) = queue (controllers ?w2 c) @ noticeEvents rest"
    by simp
  then show ?case using q1 by (simp add: noticeEvents_def)
qed

subsection \<open>Invariants of the stream loop\<close>

lemma pushToken_eq:
  "\<exists>subs ctl. pushToken token (fullText, chunkIndex, (task, w)) =
     (fullText @ token, Suc chunkIndex,
      (task\<lparr>chunks := chunks task @ [\<lparr>content = token, index = int chunkIndex\<rparr>], subscribers := subs\<rparr>,
       w\<lparr>controllers := ctl\<rparr>))"
proof -
  let ?t1 = "task\<lparr>chunks := chunks task @ [\<lparr>content = token, index = int chunkIndex\<rparr>]\<rparr>"
  obtain subs ctl where "notifySubscribers (ChunkEv token (int chunkIndex)) (?t1, w)
      = (?t1\<lparr>subscribers := subs\<rparr>, w\<lparr>controllers := ctl\<rparr>)"
    using notifySubscribers_frame by blast
  then have "pushToken token (fullText, chunkIndex, (task, w)) =
     (fullText @ token, Suc chunkIndex,
      (task\<lparr>chunks := chunks task @ [\<lparr>content = token, index = int chunkIndex\<rparr>], subscribers := subs\<rparr>,
       w\<lparr>controllers := ctl\<rparr>))"
    by (simp add: pushToken_def Let_def)
  then show ?thesis by blast
qed

lemma processLine_inv:
  assumes "\<And>token s. P s \<Longrightarrow> P (pushToken token s)" and "P s"
  shows "P (processLine e line s)"
  using assms by (simp add: processLine_def split: option.splits)

lemma fold_processLine_inv:
  assumes "\<And>token s. P s \<Longrightarrow> P (pushToken token s)" and "P s"
  shows "P (fold (processLine e) ls s)"
  using assms(2)
proof (induction ls arbitrary: s)
  case Nil
  then show ?case by simp
next
  case (Cons l ls)
  then show ?case using processLine_inv [of P, OF assms(1)] by simp
qed

lemma readStep_inv:
  assumes "\<And>token s. P s \<Longrightarrow> P (pushToken token s)" and "P (snd bs)"
  shows "P (snd (readStep e val bs))"
proof -
  obtain buffer s where bs: "bs = (buffer, s)" by (cases bs) auto
  with assms(2) have "P s" by simp
  then show ?thesis
    using fold_processLine_inv [of P, OF assms(1)]
    by (simp add: readStep_def bs split: list.splits)
qed

lemma fold_readStep_inv:
  assumes "\<And>token s. P s \<Longrightarrow> P (pushToken token s)" and "P (snd bs)"
  shows "P (snd (fold (readStep e) reads bs))"
  using assms(2)
proof (induction reads arbitrary: bs)
  case Nil
  then show ?case by simp
next
  case (Cons r reads)
  then show ?case using readStep_inv [of P, OF assms(1)] by simp
qed

lemma streamReads_inv:
  assumes "\<And>token s. P s \<Longrightarrow> P (pushToken token s)"
      and "P ([], length (chunks task), (task, w))"
  shows "P (snd (streamReads e reads (task, w)))"
  using fold_readStep_inv [of P, OF assms(1)] assms(2) by (simp add: streamReads_def)

lemma streamFromOllama_inv:
  assumes "\<And>token s. P s \<Longrightarrow> P (pushToken token s)"
      and "P ([], length (chunks task), (task, w))"
      and "streamFromOllama e resp (task, w) = (r, st')"
  shows "\<exists>fullText chunkIndex. P (fullText, chunkIndex, st') \<and>
           (case body_read_error resp of Some m \<Rightarrow> r = Inl m | None \<Rightarrow> r = Inr fullText)"
proof -
  obtain buffer s where sr: "streamReads e (body_reads resp) (task, w) = (buffer, s)"
    by (cases "streamReads e (body_reads resp) (task, w)") auto
  from streamReads_inv [of P, OF assms(1) assms(2), of e "body_reads resp"] sr have Ps: "P s" by simp
  show ?thesis
  proof (cases "body_read_error resp")
    case (Some m)
    obtain ft ci st where s: "s = (ft, ci, st)" by (cases s) auto
    with assms(3) sr Some have "r = Inl m" "st' = st" by (simp_all add: streamFromOllama_def)
    with Ps s Some show ?thesis by auto
  next
    case None
    obtain ft ci st where pl: "processLine e buffer s = (ft, ci, st)" by (cases "processLine e buffer s") auto
    from processLine_inv [of P, OF assms(1) Ps, of e buffer] pl have "P (ft, ci, st)" by simp
    moreover from assms(3) sr None pl have "r = Inr ft" "st' = st" by (simp_all add: streamFromOllama_def)
    ultimately show ?thesis using None by auto
  qed
qed

section \<open>The loop and how a task settles\<close>

subsection \<open>One turn of the loop\<close>

lemma req_stream_requestBody:
  "req_stream (requestBody useSearch useCode iteration messages) = (\<not> (useSearch \<or> useCode) \<or> iteration > 1)"
  by (simp add: requestBody_def activeToolsOf_def availableTools_def Let_def)

lemma req_tools_requestBody:
  "req_tools (requestBody useSearch useCode iteration messages) =
     (if (useSearch \<or> useCode) \<and> iteration = 1 then Some (activeToolsOf useSearch useCode) else None)"
  by (simp add: requestBody_def activeToolsOf_def availableTools_def Let_def)

lemma taskLoop_unfold:
  "iteration < 5 \<Longrightarrow>
   taskLoop e useSearch useCode iteration messages st =
     (case iterationBody e useSearch useCode (Suc iteration) messages st of
        Break st' \<Rightarrow> (None, Suc iteration, st')
      | Throw m st' \<Rightarrow> (Some m, Suc iteration, st')
      | Continue messages' st' \<Rightarrow> taskLoop e useSearch useCode (Suc iteration) messages' st')"
  by (subst taskLoop.simps) (simp add: MAX_ITERATIONS_def)

lemma runTask_settle:
  "taskLoop e useSearch useCode 0 messages (task, w) = (r, iteration, st) \<Longrightarrow>
   runTask e task messages useSearch useCode w = settle e r st"
  by (simp add: runTask_def processTask_def settle_def split: option.splits prod.splits)

lemma iterationBody_http_failure:
  assumes "fetch e iteration (requestBody useSearch useCode iteration messages) = Inr resp"
      and "\<not> ok resp"
  shows "iterationBody e useSearch useCode iteration messages (task, w) =
           Throw (''Ollama error ('' @ showNat (http_status resp) @ ''): '' @ body_text resp)
                 (task, w\<lparr>calls := calls w @ [EngineCall (requestBody useSearch useCode iteration messages)]\<rparr>)"
  using assms by (simp add: iterationBody_def Let_def logCall_def)

lemma iterationBody_tool_calls:
  assumes "useSearch \<or> useCode"
      and "fetch e 1 (requestBody useSearch useCode 1 messages) = Inr resp"
      and "ok resp" and "body_json resp = Inr msg" and "tool_calls msg \<noteq> []"
  shows "iterationBody e useSearch useCode 1 messages (task, w) =
           (case runTools e (tool_calls msg) (messages @ [msg])
                   (task, w\<lparr>calls := calls w @ [EngineCall (requestBody useSearch useCode 1 messages)]\<rparr>) of
              (Some m, messages', st2) \<Rightarrow> Throw m st2
            | (None, messages', st2) \<Rightarrow> Continue messages' st2)"
  using assms by (simp add: iterationBody_def Let_def logCall_def req_stream_requestBody)

lemma iterationBody_stream:
  assumes "req_stream (requestBody useSearch useCode iteration messages)"
  shows "iterationBody e useSearch useCode iteration messages (task, w) =
     (let body = requestBody useSearch useCode iteration messages;
          st1 = (task, w\<lparr>calls := calls w @ [EngineCall body]\<rparr>)
      in case fetch e iteration body of
           Inl m \<Rightarrow> Throw m st1
         | Inr resp \<Rightarrow>
             if \<not> ok resp then
               Throw (''Ollama error ('' @ showNat (http_status resp) @ ''): '' @ body_text resp) st1
             else
               (case streamFromOllama e resp st1 of
                  (Inl m, st2) \<Rightarrow> Throw m st2
                | (Inr text, (task', w')) \<Rightarrow>
                    Break (task'\<lparr>fullResponse := fullResponse task' @ text\<rparr>, w')))"
  using assms by (simp add: iterationBody_def Let_def logCall_def split: sum.splits)

text \<open>Every way a turn can end, with the list of chunks and the text it leaves.\<close>

lemma streamFromOllama_frame:
  assumes "streamFromOllama e resp (task, w) = (r, (task', w'))"
  shows "\<exists>cks subs ctl. task' = task\<lparr>chunks := cks, subscribers := subs\<rparr> \<and> w' = w\<lparr>controllers := ctl\<rparr>"
proof -
  let ?P = "\<lambda>(ft :: string, ci :: nat, (t, w1)).
              \<exists>cks subs ctl. t = task\<lparr>chunks := cks, subscribers := subs\<rparr> \<and> w1 = w\<lparr>controllers := ctl\<rparr>"
  have step: "\<And>token s. ?P s \<Longrightarrow> ?P (pushToken token s)"
  proof -
    fix token s assume Ps: "?P s"
    obtain ft ci t w1 where s: "s = (ft, ci, (t, w1))" by (cases s) auto
    from Ps s obtain cks subs ctl where t: "t = task\<lparr>chunks := cks, subscribers := subs\<rparr>"
      and w1: "w1 = w\<lparr>controllers := ctl\<rparr>" by auto
    from pushToken_eq [of token ft ci t w1] obtain subs' ctl' where
      "pushToken token s = (ft @ token, Suc ci,
         (t\<lparr>chunks := chunks t @ [\<lparr>content = token, index = int ci\<rparr>], subscribers := subs'\<rparr>,
          w1\<lparr>controllers := ctl'\<rparr>))" using s by auto
    then show "?P (pushToken token s)" by (auto simp: t w1)
  qed
  have init: "?P ([], length (chunks task), (task, w))"
  proof -
    have "task = task\<lparr>chunks := chunks task, subscribers := subscribers task\<rparr>"
         "w = w\<lparr>controllers := controllers w\<rparr>" by simp_all
    then show ?thesis by blast
  qed
  from streamFromOllama_inv [of ?P, OF step init assms] show ?thesis by auto
qed

lemma streamFromOllama_text:
  assumes "streamFromOllama e resp (task, w) = (Inr text, (task', w'))"
  shows "concat (map content (chunks task')) = concat (map content (chunks task)) @ text"
proof -
  let ?P = "\<lambda>(ft :: string, ci :: nat, (t :: GenerationTask, w1 :: world)).
              concat (map content (chunks t)) = concat (map content (chunks task)) @ ft"
  have step: "\<And>token s. ?P s \<Longrightarrow> ?P (pushToken token s)"
  proof -
    fix token s assume Ps: "?P s"
    obtain ft ci t w1 where s: "s = (ft, ci, (t, w1))" by (cases s) auto
    from pushToken_eq [of token ft ci t w1] obtain subs' ctl' where
      "pushToken token s = (ft @ token, Suc ci,
         (t\<lparr>chunks := chunks t @ [\<lparr>content = token, index = int ci\<rparr>], subscribers := subs'\<rparr>,
          w1\<lparr>controllers := ctl'\<rparr>))" using s by auto
    then show "?P (pushToken token s)" using Ps s by auto
  qed
  have init: "?P ([], length (chunks task), (task, w))" by simp
  from streamFromOllama_inv [of ?P, OF step init assms]
  obtain ft ci where "?P (ft, ci, (task', w'))"
    and "case body_read_error resp of Some m \<Rightarrow> Inr text = (Inl m :: string + string) | None \<Rightarrow> Inr text = (Inr ft :: string + string)"
    by blast
  then show ?thesis by (cases "body_read_error resp") auto
qed

subsection \<open>How a task settles\<close>

lemma attached_cong:
  "subscribers t' = subscribers t \<Longrightarrow> controllers w' = controllers w \<Longrightarrow>
   attached c (t', w') = attached c (t, w)"
  by (simp add: attached_def)

lemma onRejected_frame:
  "\<exists>ctl. onRejected m (task, w) =
     (task\<lparr>status := Error, error := Some m, subscribers := []\<rparr>, w\<lparr>controllers := ctl\<rparr>)"
proof -
  let ?t = "task\<lparr>status := Error, error := Some m\<rparr>"
  obtain subs c1 where n: "notifySubscribers (ErrorEv (Some m)) (?t, w)
      = (?t\<lparr>subscribers := subs\<rparr>, w\<lparr>controllers := c1\<rparr>)"
    using notifySubscribers_frame by blast
  obtain c2 where "closeSubscribers (?t\<lparr>subscribers := subs\<rparr>, w\<lparr>controllers := c1\<rparr>)
      = (?t\<lparr>subscribers := subs\<rparr>\<lparr>subscribers := []\<rparr>, w\<lparr>controllers := c1\<rparr>\<lparr>controllers := c2\<rparr>)"
    using closeSubscribers_frame by blast
  with n have "onRejected m (task, w) =
     (task\<lparr>status := Error, error := Some m, subscribers := []\<rparr>, w\<lparr>controllers := c2\<rparr>)"
    by (simp add: onRejected_def)
  then show ?thesis by blast
qed

lemma onRejected_attached:
  assumes "attached c (task, w)" and "onRejected m (task, w) = (task', w')"
  shows "queue (controllers w' c) = queue (controllers w c) @ [Data (ErrorEv (Some m))]
         \<and> closed (controllers w' c)"
proof -
  let ?t = "task\<lparr>status := Error, error := Some m\<rparr>"
  have a0: "attached c (?t, w)" using assms(1) by (simp add: attached_def)
  obtain t1 w1 where n: "notifySubscribers (ErrorEv (Some m)) (?t, w) = (t1, w1)"
    by (cases "notifySubscribers (ErrorEv (Some m)) (?t, w)") auto
  from notifySubscribers_attached [OF a0 n]
  have a1: "attached c (t1, w1)"
    and q1: "queue (controllers w1 c) = queue (controllers w c) @ [Data (ErrorEv (Some m))]" by simp_all
  from assms(2) n have "closeSubscribers (t1, w1) = (task', w')" by (simp add: onRejected_def)
  from closeSubscribers_attached [OF a1 this] q1 show ?thesis by simp
qed

lemma finishTask_frame:
  "\<exists>ctl. finishTask (task, w) =
     (task\<lparr>subscribers := []\<rparr>,
      w\<lparr>controllers := ctl, timers := timers w @ [(5 * 60 * 1000, task_id task)]\<rparr>)"
proof -
  obtain subs c1 where n: "notifySubscribers DoneEv (task, w)
      = (task\<lparr>subscribers := subs\<rparr>, w\<lparr>controllers := c1\<rparr>)"
    using notifySubscribers_frame by blast
  obtain c2 where "closeSubscribers (task\<lparr>subscribers := subs\<rparr>, w\<lparr>controllers := c1\<rparr>)
      = (task\<lparr>subscribers := subs\<rparr>\<lparr>subscribers := []\<rparr>, w\<lparr>controllers := c1\<rparr>\<lparr>controllers := c2\<rparr>)"
    using closeSubscribers_frame by blast
  with n have "finishTask (task, w) =
     (task\<lparr>subscribers := []\<rparr>,
      w\<lparr>controllers := c2, timers := timers w @ [(5 * 60 * 1000, task_id task)]\<rparr>)"
    by (simp add: finishTask_def)
  then show ?thesis by blast
qed

lemma finishTask_attached:
  assumes "attached c (task, w)" and "finishTask (task, w) = (task', w')"
  shows "queue (controllers w' c) = queue (controllers w c) @ [Data DoneEv] \<and> closed (controllers w' c)"
proof -
  obtain t1 w1 where n: "notifySubscribers DoneEv (task, w) = (t1, w1)"
    by (cases "notifySubscribers DoneEv (task, w)") auto
  from notifySubscribers_attached [OF assms(1) n]
  have a1: "attached c (t1, w1)"
    and q1: "queue (controllers w1 c) = queue (controllers w c) @ [Data DoneEv]" by simp_all
  obtain t2 w2 where c: "closeSubscribers (t1, w1) = (t2, w2)"
    by (cases "closeSubscribers (t1, w1)") auto
  from assms(2) n c have "controllers w' = controllers w2"
    by (auto simp: finishTask_def)
  with closeSubscribers_attached [OF a1 c] q1 show ?thesis by simp
qed

text \<open>The two ways \<open>completeTask\<close> ends.\<close>

lemma completeTask_cases:
  assumes "completeTask e (task, w) = (r, (task', w'))"
  shows "(r = None \<and>
          (\<exists>ctl dbw. task' = task\<lparr>status := Completed, completedAt := Some (now e), subscribers := []\<rparr> \<and>
             w' = w\<lparr>controllers := ctl, timers := timers w @ [(5 * 60 * 1000, task_id task)],
                    db := db w @ dbw,
                    calls := calls w @ map (\<lambda>(cv, ro, tx). DbAddMessage cv ro tx) dbw\<rparr> \<and>
             dbw = (if fullResponse task \<noteq> [] then [(conversationId task, ''assistant'', fullResponse task)] else [])))
       \<or> (\<exists>m. r = Some m \<and> fullResponse task \<noteq> [] \<and>
             task' = task\<lparr>status := Completed, completedAt := Some (now e)\<rparr> \<and>
             w' = w\<lparr>calls := calls w @ [DbAddMessage (conversationId task) ''assistant'' (fullResponse task)]\<rparr>)"
proof -
  let ?t1 = "task\<lparr>status := Completed, completedAt := Some (now e)\<rparr>"
  show ?thesis
  proof (cases "fullResponse task = []")
    case True
    obtain ctl where f: "finishTask (?t1, w) =
      (?t1\<lparr>subscribers := []\<rparr>, w\<lparr>controllers := ctl, timers := timers w @ [(5 * 60 * 1000, task_id ?t1)]\<rparr>)"
      using finishTask_frame by blast
    from assms True have r: "r = None" and eq: "(task', w') = finishTask (?t1, w)"
      by (simp_all add: completeTask_def Let_def)
    let ?dbw = "[] :: (string \<times> string \<times> string) list"
    from eq f have t: "task' = task\<lparr>status := Completed, completedAt := Some (now e), subscribers := []\<rparr>"
      and w: "w' = w\<lparr>controllers := ctl, timers := timers w @ [(5 * 60 * 1000, task_id task)],
                  db := db w @ ?dbw,
                  calls := calls w @ map (\<lambda>(cv, ro, tx). DbAddMessage cv ro tx) ?dbw\<rparr>"
      by simp_all
    have d: "?dbw = (if fullResponse task \<noteq> [] then [(conversationId task, ''assistant'', fullResponse task)] else [])"
      using True by simp
    from r t w d show ?thesis by blast
  next
    case False
    let ?w2 = "w\<lparr>calls := calls w @ [DbAddMessage (conversationId task) ''assistant'' (fullResponse task)]\<rparr>"
    show ?thesis
    proof (cases "addMessage e (conversationId task) ''assistant'' (fullResponse task)")
      case (Some m)
      with assms False show ?thesis by (auto simp: completeTask_def Let_def logCall_def)
    next
      case None
      let ?w3 = "?w2\<lparr>db := db ?w2 @ [(conversationId task, ''assistant'', fullResponse task)]\<rparr>"
      obtain ctl where f: "finishTask (?t1, ?w3) =
        (?t1\<lparr>subscribers := []\<rparr>, ?w3\<lparr>controllers := ctl, timers := timers ?w3 @ [(5 * 60 * 1000, task_id ?t1)]\<rparr>)"
        using finishTask_frame by blast
      from assms False None have r: "r = None" and eq: "(task', w') = finishTask (?t1, ?w3)"
        by (simp_all add: completeTask_def Let_def logCall_def)
      let ?dbw = "[(conversationId task, ''assistant'', fullResponse task)]"
      from eq f have t: "task' = task\<lparr>status := Completed, completedAt := Some (now e), subscribers := []\<rparr>"
        and w: "w' = w\<lparr>controllers := ctl, timers := timers w @ [(5 * 60 * 1000, task_id task)],
                    db := db w @ ?dbw,
                    calls := calls w @ map (\<lambda>(cv, ro, tx). DbAddMessage cv ro tx) ?dbw\<rparr>"
        by simp_all
      have d: "?dbw = (if fullResponse task \<noteq> [] then [(conversationId task, ''assistant'', fullResponse task)] else [])"
        using False by simp
      from r t w d show ?thesis by blast
    qed
  qed
qed

lemma completeTask_attached:
  assumes "attached c (task, w)" and "completeTask e (task, w) = (r, (task', w'))"
  shows "(r = None \<longrightarrow> queue (controllers w' c) = queue (controllers w c) @ [Data DoneEv]
                        \<and> closed (controllers w' c))
       \<and> (r \<noteq> None \<longrightarrow> attached c (task', w') \<and> queue (controllers w' c) = queue (controllers w c))"
proof -
  let ?t1 = "task\<lparr>status := Completed, completedAt := Some (now e)\<rparr>"
  show ?thesis
  proof (cases "fullResponse task = []")
    case True
    have a: "attached c (?t1, w)" using assms(1) by (simp add: attached_def)
    from assms(2) True have "r = None" "finishTask (?t1, w) = (task', w')"
      by (simp_all add: completeTask_def Let_def)
    with finishTask_attached [OF a] show ?thesis by simp
  next
    case False
    let ?w2 = "w\<lparr>calls := calls w @ [DbAddMessage (conversationId task) ''assistant'' (fullResponse task)]\<rparr>"
    show ?thesis
    proof (cases "addMessage e (conversationId task) ''assistant'' (fullResponse task)")
      case (Some m)
      with assms(2) False have "r = Some m" "task' = ?t1" "w' = ?w2"
        by (simp_all add: completeTask_def Let_def logCall_def)
      with assms(1) show ?thesis by (simp add: attached_def)
    next
      case None
      let ?w3 = "?w2\<lparr>db := db ?w2 @ [(conversationId task, ''assistant'', fullResponse task)]\<rparr>"
      have a: "attached c (?t1, ?w3)" using assms(1) by (simp add: attached_def)
      from assms(2) False None have "r = None" "finishTask (?t1, ?w3) = (task', w')"
        by (simp_all add: completeTask_def Let_def logCall_def)
      with finishTask_attached [OF a] show ?thesis by simp
    qed
  qed
qed

lemma settle_Some:
  assumes "settle e (Some m) (task, w) = (task', w')"
  shows "\<exists>ctl. task' = task\<lparr>status := Error, error := Some m, subscribers := []\<rparr> \<and> w' = w\<lparr>controllers := ctl\<rparr>"
  using assms onRejected_frame [of m task w] by (auto simp: settle_def)

lemma settle_summary:
  assumes "settle e r (task, w) = (task', w')"
  shows "status task' \<noteq> Running \<and> chunks task' = chunks task \<and> fullResponse task' = fullResponse task
         \<and> subscribers task' = [] \<and> (status task' = Completed \<longrightarrow> r = None)
         \<and> (\<exists>rest. calls w' = calls w @ rest \<and>
               (rest = [] \<or> rest = [DbAddMessage (conversationId task) ''assistant'' (fullResponse task)]))"
proof (cases r)
  case (Some m)
  with settle_Some assms show ?thesis by fastforce
next
  case None
  obtain r1 t1 w1 where c: "completeTask e (task, w) = (r1, (t1, w1))"
    by (cases "completeTask e (task, w)") auto
  show ?thesis
  proof (cases r1)
    case n: None
    with None c assms have "task' = t1" "w' = w1" by (simp_all add: settle_def)
    with completeTask_cases [OF c] n None show ?thesis by (auto split: if_splits)
  next
    case (Some m)
    with None c assms have o: "onRejected m (t1, w1) = (task', w')" by (simp add: settle_def)
    from completeTask_cases [OF c] Some
    have t1: "t1 = task\<lparr>status := Completed, completedAt := Some (now e)\<rparr>"
      and w1: "w1 = w\<lparr>calls := calls w @ [DbAddMessage (conversationId task) ''assistant'' (fullResponse task)]\<rparr>"
      by auto
    from onRejected_frame [of m t1 w1] o obtain ctl where
      "task' = t1\<lparr>status := Error, error := Some m, subscribers := []\<rparr>" "w' = w1\<lparr>controllers := ctl\<rparr>"
      by auto
    then show ?thesis by (simp add: t1 w1)
  qed
qed

lemma settle_attached:
  assumes "attached c (task, w)" and "settle e r (task, w) = (task', w')"
  shows "queue (controllers w' c) = queue (controllers w c) @ terminalSignal task'
         \<and> closed (controllers w' c)"
proof (cases r)
  case (Some m)
  with assms(2) have o: "onRejected m (task, w) = (task', w')" by (simp add: settle_def)
  from onRejected_frame [of m task w] o have "status task' = Error" "error task' = Some m" by auto
  with onRejected_attached [OF assms(1) o] show ?thesis by (simp add: terminalSignal_def)
next
  case None
  obtain r1 t1 w1 where c: "completeTask e (task, w) = (r1, (t1, w1))"
    by (cases "completeTask e (task, w)") auto
  show ?thesis
  proof (cases r1)
    case n: None
    with None c assms(2) have eq: "task' = t1" "w' = w1" by (simp_all add: settle_def)
    from completeTask_cases [OF c] n have "status t1 = Completed" by auto
    with completeTask_attached [OF assms(1) c] n eq show ?thesis by (simp add: terminalSignal_def)
  next
    case (Some m)
    with None c assms(2) have o: "onRejected m (t1, w1) = (task', w')" by (simp add: settle_def)
    from completeTask_attached [OF assms(1) c] Some
    have a1: "attached c (t1, w1)" and q1: "queue (controllers w1 c) = queue (controllers w c)" by simp_all
    from onRejected_frame [of m t1 w1] o have "status task' = Error" "error task' = Some m" by auto
    with onRejected_attached [OF a1 o] q1 show ?thesis by (simp add: terminalSignal_def)
  qed
qed

subsection \<open>What the loop leaves alone\<close>

lemma unchanged_refl: "unchanged st st"
  by (cases st) (simp add: unchanged_def)

lemma unchanged_trans: "unchanged a b \<Longrightarrow> unchanged b c \<Longrightarrow> unchanged a c"
  by (cases a, cases b, cases c) (simp add: unchanged_def)

lemma unchanged_logCall: "unchanged st (logCall c st)"
  by (cases st) (simp add: unchanged_def logCall_def)

lemma unchanged_notify: "unchanged (task, w) (notifySubscribers ev (task, w))"
proof -
  obtain subs ctl where "notifySubscribers ev (task, w) = (task\<lparr>subscribers := subs\<rparr>, w\<lparr>controllers := ctl\<rparr>)"
    using notifySubscribers_frame by blast
  then show ?thesis by (simp add: unchanged_def)
qed

lemma unchanged_runTools:
  "runTools e tools messages (task, w) = (r, messages', st') \<Longrightarrow> unchanged (task, w) st'"
  using runTools_frame [of e tools messages task w] by (auto simp: unchanged_def)

lemma unchanged_stream:
  "streamFromOllama e resp (task, w) = (r, (task', w')) \<Longrightarrow> unchanged (task, w) (task', w')"
  using streamFromOllama_frame [of e resp task w r task' w'] by (auto simp: unchanged_def)

lemma unchanged_iterationBody:
  "unchanged (task, w) (turnState (iterationBody e useSearch useCode iteration messages (task, w)))"
proof -
  let ?body = "requestBody useSearch useCode iteration messages"
  let ?w1 = "w\<lparr>calls := calls w @ [EngineCall ?body]\<rparr>"
  have u1: "unchanged (task, w) (task, ?w1)" by (simp add: unchanged_def)
  have st1: "logCall (EngineCall ?body) (task, w) = (task, ?w1)" by (simp add: logCall_def)
  show ?thesis
  proof (cases "fetch e iteration ?body")
    case (Inl m)
    then show ?thesis using u1 by (simp add: iterationBody_def Let_def st1)
  next
    case (Inr resp)
    show ?thesis
    proof (cases "ok resp")
      case False
      with Inr show ?thesis using u1 by (simp add: iterationBody_def Let_def st1)
    next
      case True
      show ?thesis
      proof (cases "req_stream ?body")
        case stream: True
        obtain r t2 w2 where s: "streamFromOllama e resp (task, ?w1) = (r, (t2, w2))"
          by (cases "streamFromOllama e resp (task, ?w1)") auto
        from unchanged_stream [OF s] have u2: "unchanged (task, w) (t2, w2)"
          by (simp add: unchanged_def)
        then have u3: "\<And>text. unchanged (task, w) (t2\<lparr>fullResponse := fullResponse t2 @ text\<rparr>, w2)"
          by (simp add: unchanged_def)
        show ?thesis
          using Inr True stream s u2 u3
          by (cases r) (simp_all add: iterationBody_def Let_def st1)
      next
        case nostream: False
        show ?thesis
        proof (cases "body_json resp")
          case (Inl m)
          with Inr True nostream show ?thesis using u1 by (simp add: iterationBody_def Let_def st1)
        next
          case json: (Inr msg)
          show ?thesis
          proof (cases "tool_calls msg = []")
            case False
            obtain r ms st2 where rt: "runTools e (tool_calls msg) (messages @ [msg]) (task, ?w1) = (r, ms, st2)"
              by (cases "runTools e (tool_calls msg) (messages @ [msg]) (task, ?w1)") auto
            from unchanged_runTools [OF rt] have "unchanged (task, w) st2"
              by (cases st2) (simp add: unchanged_def)
            with Inr True nostream json False rt show ?thesis
              by (cases r) (simp_all add: iterationBody_def Let_def st1)
          next
            case nocalls: True
            let ?t2 = "task\<lparr>fullResponse := fullResponse task @ msg_content msg,
                             chunks := chunks task @ [\<lparr>content = msg_content msg, index = int (length (chunks task))\<rparr>]\<rparr>"
            have "unchanged (?t2, ?w1) (notifySubscribers (ChunkEv (msg_content msg) (int (length (chunks task)))) (?t2, ?w1))"
              by (rule unchanged_notify)
            then have "unchanged (task, w) (notifySubscribers (ChunkEv (msg_content msg) (int (length (chunks task)))) (?t2, ?w1))"
              by (cases "notifySubscribers (ChunkEv (msg_content msg) (int (length (chunks task)))) (?t2, ?w1)")
                 (simp add: unchanged_def)
            with Inr True nostream json nocalls show ?thesis
              by (simp add: iterationBody_def Let_def st1)
          qed
        qed
      qed
    qed
  qed
qed

text \<open>An invariant of every turn is an invariant of the loop.\<close>

lemma taskLoop_inv:
  "(\<And>it m s. Q s \<Longrightarrow> Q (turnState (iterationBody e useSearch useCode it m s))) \<Longrightarrow> Q st \<Longrightarrow>
   Q (snd (snd (taskLoop e useSearch useCode iteration messages st)))"
proof (induction e useSearch useCode iteration messages st rule: taskLoop.induct)
  case (1 e useSearch useCode iteration messages st)
  note step = "1.prems"(1) and Qst = "1.prems"(2)
  show ?case
  proof (cases "iteration < MAX_ITERATIONS")
    case False
    then show ?thesis using Qst by (subst taskLoop.simps) simp
  next
    case True
    have Q': "Q (turnState (iterationBody e useSearch useCode (Suc iteration) messages st))"
      by (rule step [OF Qst])
    show ?thesis
    proof (cases "iterationBody e useSearch useCode (Suc iteration) messages st")
      case (Break st')
      with True Q' show ?thesis by (subst taskLoop.simps) simp
    next
      case (Throw m st')
      with True Q' show ?thesis by (subst taskLoop.simps) simp
    next
      case (Continue messages' st')
      with Q' have "Q st'" by simp
      from "1.IH" [OF True Continue step this] True Continue show ?thesis
        by (subst taskLoop.simps) simp
    qed
  qed
qed

lemma unchanged_taskLoop:
  "unchanged st (snd (snd (taskLoop e useSearch useCode iteration messages st)))"
proof -
  have "\<And>it m s. unchanged st s \<Longrightarrow> unchanged st (turnState (iterationBody e useSearch useCode it m s))"
  proof -
    fix it m s assume a: "unchanged st s"
    obtain t w where s: "s = (t, w)" by (cases s) auto
    have "unchanged s (turnState (iterationBody e useSearch useCode it m s))"
      unfolding s by (rule unchanged_iterationBody)
    with a show "unchanged st (turnState (iterationBody e useSearch useCode it m s))"
      by (rule unchanged_trans)
  qed
  from taskLoop_inv [of "unchanged st", OF this unchanged_refl] show ?thesis .
qed

section \<open>Replay on subscribe\<close>



lemma subscribe_queue:
  assumes "activeTasks w taskId = Some task"
  shows "\<exists>w'. subscribe taskId k w = Some (nextController w, w') \<and>
           queue (controllers w' (nextController w)) =
             replayEvents (missedChunks task k) @ terminalSignal task \<and>
           (status task = Running \<longrightarrow>
              (\<exists>task'. activeTasks w' taskId = Some task' \<and> nextController w \<in> set (subscribers task')))"
  using assms
  by (cases "status task") (simp_all add: subscribe_def Let_def terminalSignal_def set_add_def)

subsection \<open>The numbering of the fragments\<close>

lemma indexed_append:
  "indexed task \<Longrightarrow>
   indexed (task\<lparr>chunks := chunks task @ [\<lparr>content = text, index = int (length (chunks task))\<rparr>]\<rparr>)"
  by (simp add: indexed_def)

lemma indexed_stream_step:
  fixes s :: stream_state
  assumes "fst (snd s) = length (chunks (fst (snd (snd s)))) \<and> indexed (fst (snd (snd s)))"
  shows "fst (snd (pushToken token s)) = length (chunks (fst (snd (snd (pushToken token s)))))
         \<and> indexed (fst (snd (snd (pushToken token s))))"
proof -
  obtain ft ci t w1 where s: "s = (ft, ci, (t, w1))" by (cases s) auto
  from pushToken_eq [of token ft ci t w1] obtain subs ctl where
    p: "pushToken token s = (ft @ token, Suc ci,
         (t\<lparr>chunks := chunks t @ [\<lparr>content = token, index = int ci\<rparr>], subscribers := subs\<rparr>,
          w1\<lparr>controllers := ctl\<rparr>))" using s by auto
  from assms s have ci: "ci = length (chunks t)" and ix: "indexed t" by simp_all
  from indexed_append [OF ix, of token] ci
  have "indexed (t\<lparr>chunks := chunks t @ [\<lparr>content = token, index = int ci\<rparr>], subscribers := subs\<rparr>)"
    by (simp add: indexed_def)
  with ci show ?thesis by (simp add: p)
qed

lemma indexed_streamReads:
  assumes "indexed task"
  shows "indexed (fst (snd (snd (snd (streamReads e reads (task, w))))))"
proof -
  let ?P = "\<lambda>s :: stream_state. fst (snd s) = length (chunks (fst (snd (snd s)))) \<and> indexed (fst (snd (snd s)))"
  have init: "?P ([], length (chunks task), (task, w))" using assms by simp
  from streamReads_inv [of ?P, OF indexed_stream_step init, of e reads] show ?thesis by simp
qed

lemma indexed_streamFromOllama:
  assumes "indexed task" and "streamFromOllama e resp (task, w) = (r, (task', w'))"
  shows "indexed task'"
proof -
  let ?P = "\<lambda>s :: stream_state. fst (snd s) = length (chunks (fst (snd (snd s)))) \<and> indexed (fst (snd (snd s)))"
  have init: "?P ([], length (chunks task), (task, w))" using assms(1) by simp
  from streamFromOllama_inv [of ?P, OF indexed_stream_step init assms(2)] show ?thesis by auto
qed

lemma indexed_iterationBody:
  assumes "indexed task"
  shows "indexed (fst (turnState (iterationBody e useSearch useCode iteration messages (task, w))))"
proof -
  let ?body = "requestBody useSearch useCode iteration messages"
  let ?w1 = "w\<lparr>calls := calls w @ [EngineCall ?body]\<rparr>"
  have st1: "logCall (EngineCall ?body) (task, w) = (task, ?w1)" by (simp add: logCall_def)
  show ?thesis
  proof (cases "fetch e iteration ?body")
    case (Inl m)
    then show ?thesis using assms by (simp add: iterationBody_def Let_def st1)
  next
    case (Inr resp)
    show ?thesis
    proof (cases "ok resp")
      case False
      with Inr show ?thesis using assms by (simp add: iterationBody_def Let_def st1)
    next
      case True
      show ?thesis
      proof (cases "req_stream ?body")
        case stream: True
        obtain r t2 w2 where s: "streamFromOllama e resp (task, ?w1) = (r, (t2, w2))"
          by (cases "streamFromOllama e resp (task, ?w1)") auto
        from indexed_streamFromOllama [OF assms s] have i2: "indexed t2" .
        then have i3: "\<And>tx. indexed (t2\<lparr>fullResponse := fullResponse t2 @ tx\<rparr>)"
          by (simp add: indexed_def)
        show ?thesis
          using Inr True stream s i2 i3
          by (cases r) (simp_all add: iterationBody_def Let_def st1)
      next
        case nostream: False
        show ?thesis
        proof (cases "body_json resp")
          case (Inl m)
          with Inr True nostream show ?thesis using assms by (simp add: iterationBody_def Let_def st1)
        next
          case json: (Inr msg)
          show ?thesis
          proof (cases "tool_calls msg = []")
            case False
            obtain subs ctl where rt: "runTools e (tool_calls msg) (messages @ [msg]) (task, ?w1) =
               (None, (messages @ [msg]) @ toolMessages e (tool_calls msg),
                (task\<lparr>subscribers := subs\<rparr>,
                 ?w1\<lparr>controllers := ctl, calls := calls ?w1 @ toolExecs (tool_calls msg)\<rparr>))"
              using runTools_frame by blast
            have "indexed (task\<lparr>subscribers := subs\<rparr>)" using assms by (simp add: indexed_def)
            with Inr True nostream json False rt show ?thesis
              by (simp add: iterationBody_def Let_def st1)
          next
            case nocalls: True
            let ?t2 = "task\<lparr>fullResponse := fullResponse task @ msg_content msg,
                             chunks := chunks task @ [\<lparr>content = msg_content msg, index = int (length (chunks task))\<rparr>]\<rparr>"
            obtain subs ctl where n: "notifySubscribers (ChunkEv (msg_content msg) (int (length (chunks task)))) (?t2, ?w1)
                = (?t2\<lparr>subscribers := subs\<rparr>, ?w1\<lparr>controllers := ctl\<rparr>)"
              using notifySubscribers_frame by blast
            have "indexed (?t2\<lparr>subscribers := subs\<rparr>)"
              using indexed_append [OF assms, of "msg_content msg"] by (simp add: indexed_def)
            with Inr True nostream json nocalls n show ?thesis
              by (simp add: iterationBody_def Let_def st1)
          qed
        qed
      qed
    qed
  qed
qed

lemma indexed_runTask:
  assumes "indexed task" and "runTask e task messages useSearch useCode w = (task', w')"
  shows "indexed task'"
proof -
  let ?Q = "\<lambda>s :: GenerationTask \<times> world. indexed (fst s)"
  have step: "\<And>it m s. ?Q s \<Longrightarrow> ?Q (turnState (iterationBody e useSearch useCode it m s))"
  proof -
    fix it m s assume q: "?Q s"
    obtain t w0 where s: "s = (t, w0)" by (cases s) auto
    with q indexed_iterationBody [of t e useSearch useCode it m w0]
    show "?Q (turnState (iterationBody e useSearch useCode it m s))" by simp
  qed
  obtain r it t1 w1 where l: "taskLoop e useSearch useCode 0 messages (task, w) = (r, it, (t1, w1))"
    by (cases "taskLoop e useSearch useCode 0 messages (task, w)") auto
  from taskLoop_inv [of ?Q, OF step, of "(task, w)" 0 messages] assms(1) l have "indexed t1" by simp
  moreover from runTask_settle [OF l] assms(2) have "settle e r (t1, w1) = (task', w')" by simp
  from settle_summary [OF this] have "chunks task' = chunks t1" by simp
  ultimately show ?thesis by (simp add: indexed_def)
qed

lemma trim_examples:
  "trim [] = []" "trim ''a'' = ''a''" "trim ''b'' = ''b''" "trim ''4'' = ''4''"
  by (simp_all add: trim_def whiteSpace_def skipLeading.simps)

lemmas model_defs =
  runTask_def processTask_def completeTask_def finishTask_def onRejected_def
  iterationBody_def requestBody_def activeToolsOf_def availableTools_def MAX_ITERATIONS_def
  streamFromOllama_def streamReads_def readStep_def processLine_def pushToken_def
  notifySubscribers_def notifyOne_def closeSubscribers_def closeOne_def enqueue_def close_def
  logCall_def trim_examples nl_def Let_def

lemmas example_defs =
  freshTask_def freshWorld_def newTask_def openController_def streamEnv_def streamResponse_def
  toolEnv_def toolCallResponse_def failEnv_def failResponse_def dbFailEnv_def

lemma settle_timers:
  assumes "settle e r (task, w) = (task', w')"
  shows "timers w' = (if status task' = Completed then timers w @ [(5 * 60 * 1000, task_id task)]
                      else timers w)"
proof (cases r)
  case (Some m)
  with settle_Some assms show ?thesis by fastforce
next
  case None
  obtain r1 t1 w1 where c: "completeTask e (task, w) = (r1, (t1, w1))"
    by (cases "completeTask e (task, w)") auto
  show ?thesis
  proof (cases r1)
    case n: None
    with None c assms have "task' = t1" "w' = w1" by (simp_all add: settle_def)
    with completeTask_cases [OF c] n show ?thesis by auto
  next
    case (Some m)
    with None c assms have o: "onRejected m (t1, w1) = (task', w')" by (simp add: settle_def)
    from completeTask_cases [OF c] Some
    have w1: "timers w1 = timers w" by auto
    from onRejected_frame [of m t1 w1] o obtain ctl where
      "task' = t1\<lparr>status := Error, error := Some m, subscribers := []\<rparr>" "w' = w1\<lparr>controllers := ctl\<rparr>"
      by auto
    then show ?thesis by (simp add: w1)
  qed
qed

subsection \<open>Text and fragments\<close>

lemma streamReads_text:
  assumes "streamReads e reads (task, w) = (buffer, fullText, chunkIndex, (t1, w1))"
  shows "fullResponse t1 = fullResponse task
         \<and> concat (map content (chunks t1)) = concat (map content (chunks task)) @ fullText"
proof -
  let ?P = "\<lambda>(ft :: string, ci :: nat, (t :: GenerationTask, w1 :: world)).
              fullResponse t = fullResponse task
              \<and> concat (map content (chunks t)) = concat (map content (chunks task)) @ ft"
  have step: "\<And>token s. ?P s \<Longrightarrow> ?P (pushToken token s)"
  proof -
    fix token s assume Ps: "?P s"
    obtain ft ci t w1 where s: "s = (ft, ci, (t, w1))" by (cases s) auto
    from pushToken_eq [of token ft ci t w1] obtain subs' ctl' where
      "pushToken token s = (ft @ token, Suc ci,
         (t\<lparr>chunks := chunks t @ [\<lparr>content = token, index = int ci\<rparr>], subscribers := subs'\<rparr>,
          w1\<lparr>controllers := ctl'\<rparr>))" using s by auto
    then show "?P (pushToken token s)" using Ps s by auto
  qed
  have init: "?P ([], length (chunks task), (task, w))" by simp
  from streamReads_inv [of ?P, OF step init, of e reads] assms show ?thesis by simp
qed

lemma textMatches_Break:
  assumes "textMatches task"
      and "iterationBody e useSearch useCode iteration messages (task, w) = Break (task', w')"
  shows "textMatches task'"
proof -
  let ?body = "requestBody useSearch useCode iteration messages"
  let ?w1 = "w\<lparr>calls := calls w @ [EngineCall ?body]\<rparr>"
  have st1: "logCall (EngineCall ?body) (task, w) = (task, ?w1)" by (simp add: logCall_def)
  from assms(2) obtain resp where f: "fetch e iteration ?body = Inr resp" and okr: "ok resp"
    by (cases "fetch e iteration ?body") (auto simp: iterationBody_def Let_def st1 split: if_splits)
  show ?thesis
  proof (cases "req_stream ?body")
    case True
    obtain r t2 w2 where s: "streamFromOllama e resp (task, ?w1) = (r, (t2, w2))"
      by (cases "streamFromOllama e resp (task, ?w1)") auto
    from assms(2) f okr True s obtain tx where r: "r = Inr tx"
      and res: "task' = t2\<lparr>fullResponse := fullResponse t2 @ tx\<rparr>"
      by (cases r) (auto simp: iterationBody_def Let_def st1)
    from streamFromOllama_frame [OF s] have "fullResponse t2 = fullResponse task" by auto
    moreover from streamFromOllama_text [of e resp task ?w1 tx t2 w2] s r
    have "concat (map content (chunks t2)) = concat (map content (chunks task)) @ tx" by simp
    ultimately show ?thesis using assms(1) res by (simp add: textMatches_def)
  next
    case False
    from assms(2) f okr False obtain msg where j: "body_json resp = Inr msg"
      by (cases "body_json resp") (auto simp: iterationBody_def Let_def st1)
    have nocalls: "tool_calls msg = []"
    proof (rule ccontr)
      assume ne: "tool_calls msg \<noteq> []"
      obtain r ms st2 where "runTools e (tool_calls msg) (messages @ [msg]) (task, ?w1) = (r, ms, st2)"
        by (cases "runTools e (tool_calls msg) (messages @ [msg]) (task, ?w1)") auto
      with assms(2) f okr False j ne show False
        by (cases r) (auto simp: iterationBody_def Let_def st1)
    qed
    let ?t2 = "task\<lparr>fullResponse := fullResponse task @ msg_content msg,
                     chunks := chunks task @ [\<lparr>content = msg_content msg, index = int (length (chunks task))\<rparr>]\<rparr>"
    obtain subs ctl where "notifySubscribers (ChunkEv (msg_content msg) (int (length (chunks task)))) (?t2, ?w1)
        = (?t2\<lparr>subscribers := subs\<rparr>, ?w1\<lparr>controllers := ctl\<rparr>)"
      using notifySubscribers_frame by blast
    with assms(2) f okr False j nocalls have "task' = ?t2\<lparr>subscribers := subs\<rparr>"
      by (simp add: iterationBody_def Let_def st1)
    then show ?thesis using assms(1) by (simp add: textMatches_def)
  qed
qed

lemma textMatches_Continue:
  assumes "textMatches task"
      and "iterationBody e useSearch useCode iteration messages (task, w) = Continue messages' (task', w')"
  shows "textMatches task'"
proof -
  let ?body = "requestBody useSearch useCode iteration messages"
  let ?w1 = "w\<lparr>calls := calls w @ [EngineCall ?body]\<rparr>"
  have st1: "logCall (EngineCall ?body) (task, w) = (task, ?w1)" by (simp add: logCall_def)
  from assms(2) obtain resp where f: "fetch e iteration ?body = Inr resp" and okr: "ok resp"
    by (cases "fetch e iteration ?body") (auto simp: iterationBody_def Let_def st1 split: if_splits)
  have ns: "\<not> req_stream ?body"
  proof
    assume "req_stream ?body"
    with assms(2) f okr show False
      by (auto simp: iterationBody_def Let_def st1 split: prod.splits sum.splits)
  qed
  from assms(2) f okr ns obtain msg where j: "body_json resp = Inr msg"
    by (cases "body_json resp") (auto simp: iterationBody_def Let_def st1)
  have calls: "tool_calls msg \<noteq> []"
  proof
    assume "tool_calls msg = []"
    with assms(2) f okr ns j show False by (simp add: iterationBody_def Let_def st1)
  qed
  obtain subs ctl where rt: "runTools e (tool_calls msg) (messages @ [msg]) (task, ?w1) =
     (None, (messages @ [msg]) @ toolMessages e (tool_calls msg),
      (task\<lparr>subscribers := subs\<rparr>, ?w1\<lparr>controllers := ctl, calls := calls ?w1 @ toolExecs (tool_calls msg)\<rparr>))"
    using runTools_frame by blast
  with assms(2) f okr ns j calls have "task' = task\<lparr>subscribers := subs\<rparr>"
    by (simp add: iterationBody_def Let_def st1)
  then show ?thesis using assms(1) by (simp add: textMatches_def)
qed

text \<open>An invariant of the turns that do not throw holds when the loop returns.\<close>

lemma taskLoop_returns_inv:
  "(\<And>it m s s'. Q s \<Longrightarrow> iterationBody e useSearch useCode it m s = Break s' \<Longrightarrow> Q s') \<Longrightarrow>
   (\<And>it m s m' s'. Q s \<Longrightarrow> iterationBody e useSearch useCode it m s = Continue m' s' \<Longrightarrow> Q s') \<Longrightarrow>
   Q st \<Longrightarrow> taskLoop e useSearch useCode iteration messages st = (None, it', st') \<Longrightarrow> Q st'"
proof (induction e useSearch useCode iteration messages st rule: taskLoop.induct)
  case (1 e useSearch useCode iteration messages st)
  note brk = "1.prems"(1) and cont = "1.prems"(2) and Qst = "1.prems"(3) and res = "1.prems"(4)
  show ?case
  proof (cases "iteration < MAX_ITERATIONS")
    case False
    with res have "st' = st" by (subst (asm) taskLoop.simps) simp
    with Qst show ?thesis by simp
  next
    case True
    show ?thesis
    proof (cases "iterationBody e useSearch useCode (Suc iteration) messages st")
      case (Break s')
      with True res have "st' = s'" by (subst (asm) taskLoop.simps) simp
      with brk [OF Qst Break] show ?thesis by simp
    next
      case (Throw m s')
      with True res show ?thesis by (subst (asm) taskLoop.simps) simp
    next
      case (Continue messages' s')
      with True res have r: "taskLoop e useSearch useCode (Suc iteration) messages' s' = (None, it', st')"
        by (subst (asm) taskLoop.simps) simp
      from "1.IH" [OF True Continue brk cont cont [OF Qst Continue] r] show ?thesis .
    qed
  qed
qed

lemma textMatches_taskLoop:
  assumes "textMatches task"
      and "taskLoop e useSearch useCode iteration messages (task, w) = (None, it', (task', w'))"
  shows "textMatches task'"
proof -
  let ?Q = "\<lambda>s :: GenerationTask \<times> world. textMatches (fst s)"
  have b: "\<And>it m s s'. ?Q s \<Longrightarrow> iterationBody e useSearch useCode it m s = Break s' \<Longrightarrow> ?Q s'"
  proof -
    fix it m s s' assume q: "?Q s" and i: "iterationBody e useSearch useCode it m s = Break s'"
    obtain t w t' w' where "s = (t, w)" "s' = (t', w')" by (cases s, cases s') auto
    with q i textMatches_Break [of t e useSearch useCode it m w t' w'] show "?Q s'" by simp
  qed
  have c: "\<And>it m s m' s'. ?Q s \<Longrightarrow> iterationBody e useSearch useCode it m s = Continue m' s' \<Longrightarrow> ?Q s'"
  proof -
    fix it m s m' s' assume q: "?Q s" and i: "iterationBody e useSearch useCode it m s = Continue m' s'"
    obtain t w t' w' where "s = (t, w)" "s' = (t', w')" by (cases s, cases s') auto
    with q i textMatches_Continue [of t e useSearch useCode it m w m' t' w'] show "?Q s'" by simp
  qed
  from taskLoop_returns_inv [of ?Q, OF b c _ assms(2)] assms(1) show ?thesis by simp
qed

subsection \<open>What a live subscriber receives\<close>

lemma pushToken_attached:
  assumes "attached c (t, w1)"
  shows "\<exists>t' w1'. pushToken token (ft, ci, (t, w1)) = (ft @ token, Suc ci, (t', w1'))
           \<and> attached c (t', w1')
           \<and> chunks t' = chunks t @ [\<lparr>content = token, index = int ci\<rparr>]
           \<and> queue (controllers w1' c) = queue (controllers w1 c) @ [Data (ChunkEv token (int ci))]"
proof -
  let ?t1 = "t\<lparr>chunks := chunks t @ [\<lparr>content = token, index = int ci\<rparr>]\<rparr>"
  have a1: "attached c (?t1, w1)" using assms by (simp add: attached_def)
  obtain t' w1' where n: "notifySubscribers (ChunkEv token (int ci)) (?t1, w1) = (t', w1')"
    by (cases "notifySubscribers (ChunkEv token (int ci)) (?t1, w1)") auto
  from notifySubscribers_frame [of "ChunkEv token (int ci)" ?t1 w1] n
  have c: "chunks t' = chunks t @ [\<lparr>content = token, index = int ci\<rparr>]" by auto
  have p: "pushToken token (ft, ci, (t, w1)) = (ft @ token, Suc ci, (t', w1'))"
    using n by (simp add: pushToken_def Let_def)
  from notifySubscribers_attached [OF a1 n] c p show ?thesis by simp
qed

lemma streamFromOllama_attached:
  assumes "attached c (task, w)" and "streamFromOllama e resp (task, w) = (r, (task', w'))"
  shows "attached c (task', w') \<and>
         (\<exists>new. chunks task' = chunks task @ new
            \<and> queue (controllers w' c) = queue (controllers w c) @ replayEvents new
            \<and> map index new = map int [length (chunks task)..<length (chunks task) + length new])"
proof -
  let ?n = "length (chunks task)"
  let ?P = "\<lambda>(ft :: string, ci :: nat, (t :: GenerationTask, w1 :: world)).
              attached c (t, w1) \<and> ci = length (chunks t) \<and>
              (\<exists>new. chunks t = chunks task @ new
                 \<and> queue (controllers w1 c) = queue (controllers w c) @ replayEvents new
                 \<and> map index new = map int [?n..<?n + length new])"
  have step: "\<And>token s. ?P s \<Longrightarrow> ?P (pushToken token s)"
  proof -
    fix token s assume Ps: "?P s"
    obtain ft ci t w1 where s: "s = (ft, ci, (t, w1))" by (cases s) auto
    from Ps s obtain new where a: "attached c (t, w1)" and ci: "ci = length (chunks t)"
      and ch: "chunks t = chunks task @ new"
      and q: "queue (controllers w1 c) = queue (controllers w c) @ replayEvents new"
      and ix: "map index new = map int [?n..<?n + length new]" by auto
    from pushToken_attached [OF a, of token ft ci] obtain t' w1' where
      p: "pushToken token (ft, ci, (t, w1)) = (ft @ token, Suc ci, (t', w1'))"
      and a': "attached c (t', w1')"
      and ch': "chunks t' = chunks t @ [\<lparr>content = token, index = int ci\<rparr>]"
      and q': "queue (controllers w1' c) = queue (controllers w1 c) @ [Data (ChunkEv token (int ci))]"
      by blast
    let ?new = "new @ [\<lparr>content = token, index = int ci\<rparr>]"
    have 1: "chunks t' = chunks task @ ?new" using ch ch' by simp
    have 2: "queue (controllers w1' c) = queue (controllers w c) @ replayEvents ?new"
      using q q' by (simp add: replayEvents_def)
    have 3: "map index ?new = map int [?n..<?n + length ?new]"
      using ix ci ch by simp
    have 4: "Suc ci = length (chunks t')" using ci ch' by simp
    from a' 1 2 3 4 have "?P (ft @ token, Suc ci, (t', w1'))" by blast
    with p s show "?P (pushToken token s)" by simp
  qed
  have init: "?P ([], length (chunks task), (task, w))"
    using assms(1) by (simp add: replayEvents_def)
  from streamFromOllama_inv [of ?P, OF step init assms(2)] show ?thesis by auto
qed

lemma stream_turn:
  assumes "req_stream (requestBody useSearch useCode iteration messages)"
  shows "\<exists>t3 w3. turnState (iterationBody e useSearch useCode iteration messages (task, w)) = (t3, w3)
           \<and> (\<forall>m' s. iterationBody e useSearch useCode iteration messages (task, w) \<noteq> Continue m' s)
           \<and> calls w3 = calls w @ [EngineCall (requestBody useSearch useCode iteration messages)]
           \<and> conversationId t3 = conversationId task
           \<and> (\<forall>c. attached c (task, w) \<longrightarrow>
                 attached c (t3, w3) \<and>
                 (\<exists>new. chunks t3 = chunks task @ new
                    \<and> queue (controllers w3 c) = queue (controllers w c) @ replayEvents new
                    \<and> map index new = map int [length (chunks task)..<length (chunks task) + length new]))"
proof -
  let ?body = "requestBody useSearch useCode iteration messages"
  let ?w1 = "w\<lparr>calls := calls w @ [EngineCall ?body]\<rparr>"
  let ?I = "iterationBody e useSearch useCode iteration messages (task, w)"
  have same: "\<forall>c. attached c (task, w) \<longrightarrow>
                 attached c (task, ?w1) \<and>
                 (\<exists>new. chunks task = chunks task @ new
                    \<and> queue (controllers ?w1 c) = queue (controllers w c) @ replayEvents new
                    \<and> map index new = map int [length (chunks task)..<length (chunks task) + length new])"
    by (auto simp: attached_def replayEvents_def)
  {
    fix x assume i: "?I = Throw x (task, ?w1)"
    have "turnState ?I = (task, ?w1)" "\<forall>m' s. ?I \<noteq> Continue m' s"
         "calls ?w1 = calls w @ [EngineCall ?body]" using i by simp_all
    with same have ?thesis by blast
  }
  note thrown = this
  show ?thesis
  proof (cases "fetch e iteration ?body")
    case (Inl m)
    with assms have "?I = Throw m (task, ?w1)" by (simp add: iterationBody_stream)
    then show ?thesis by (rule thrown)
  next
    case (Inr resp)
    show ?thesis
    proof (cases "ok resp")
      case False
      with Inr assms have "?I = Throw (''Ollama error ('' @ showNat (http_status resp) @ ''): '' @ body_text resp) (task, ?w1)"
        by (simp add: iterationBody_stream)
      then show ?thesis by (rule thrown)
    next
      case True
      obtain r t2 w2 where s: "streamFromOllama e resp (task, ?w1) = (r, (t2, w2))"
        by (cases "streamFromOllama e resp (task, ?w1)") auto
      from streamFromOllama_frame [OF s]
      have fr: "calls w2 = calls w @ [EngineCall ?body]" "conversationId t2 = conversationId task"
        by auto
      have att: "\<forall>c. attached c (task, w) \<longrightarrow>
                 attached c (t2, w2) \<and>
                 (\<exists>new. chunks t2 = chunks task @ new
                    \<and> queue (controllers w2 c) = queue (controllers w c) @ replayEvents new
                    \<and> map index new = map int [length (chunks task)..<length (chunks task) + length new])"
      proof (intro allI impI)
        fix c assume "attached c (task, w)"
        then have "attached c (task, ?w1)" by (simp add: attached_def)
        from streamFromOllama_attached [OF this s]
        show "attached c (t2, w2) \<and>
                 (\<exists>new. chunks t2 = chunks task @ new
                    \<and> queue (controllers w2 c) = queue (controllers w c) @ replayEvents new
                    \<and> map index new = map int [length (chunks task)..<length (chunks task) + length new])"
          by simp
      qed
      show ?thesis
      proof (cases r)
        case (Inl m)
        with Inr True s assms have i: "?I = Throw m (t2, w2)" by (simp add: iterationBody_stream)
        then have "turnState ?I = (t2, w2)" "\<forall>m' s. ?I \<noteq> Continue m' s" by simp_all
        with fr att show ?thesis by blast
      next
        case (Inr tx)
        let ?t3 = "t2\<lparr>fullResponse := fullResponse t2 @ tx\<rparr>"
        from Inr \<open>fetch e iteration ?body = Inr resp\<close> True s assms
        have i: "?I = Break (?t3, w2)" by (simp add: iterationBody_stream)
        then have 1: "turnState ?I = (?t3, w2)" "\<forall>m' s. ?I \<noteq> Continue m' s" by simp_all
        have 2: "conversationId ?t3 = conversationId task" using fr by simp
        have ac: "\<And>c. attached c (?t3, w2) = attached c (t2, w2)" by (simp add: attached_def)
        have 3: "\<forall>c. attached c (task, w) \<longrightarrow>
                 attached c (?t3, w2) \<and>
                 (\<exists>new. chunks ?t3 = chunks task @ new
                    \<and> queue (controllers w2 c) = queue (controllers w c) @ replayEvents new
                    \<and> map index new = map int [length (chunks task)..<length (chunks task) + length new])"
          using att by (simp add: ac)
        from 1 2 3 fr(1) show ?thesis by blast
      qed
    qed
  qed
qed

lemma taskLoop_last_turn:
  assumes "iteration < 5"
      and "\<forall>m' s. iterationBody e useSearch useCode (Suc iteration) messages st \<noteq> Continue m' s"
  shows "\<exists>r. taskLoop e useSearch useCode iteration messages st =
               (r, Suc iteration, turnState (iterationBody e useSearch useCode (Suc iteration) messages st))"
  using assms
  by (cases "iterationBody e useSearch useCode (Suc iteration) messages st")
     (simp_all add: taskLoop_unfold)

lemma tools_first_turn:
  assumes "useSearch \<or> useCode"
      and "fetch e 1 (requestBody useSearch useCode 1 messages) = Inr resp"
      and "ok resp" and "body_json resp = Inr msg" and "tool_calls msg \<noteq> []"
  shows "taskLoop e useSearch useCode 0 messages (task, w) =
           taskLoop e useSearch useCode (Suc 0) (messages @ [msg] @ toolMessages e (tool_calls msg))
             (snd (snd (runTools e (tool_calls msg) (messages @ [msg])
                (task, w\<lparr>calls := calls w @ [EngineCall (requestBody useSearch useCode 1 messages)]\<rparr>))))"
proof -
  let ?w1 = "w\<lparr>calls := calls w @ [EngineCall (requestBody useSearch useCode 1 messages)]\<rparr>"
  obtain subs ctl where rt: "runTools e (tool_calls msg) (messages @ [msg]) (task, ?w1) =
     (None, (messages @ [msg]) @ toolMessages e (tool_calls msg),
      (task\<lparr>subscribers := subs\<rparr>, ?w1\<lparr>controllers := ctl, calls := calls ?w1 @ toolExecs (tool_calls msg)\<rparr>))"
    using runTools_frame by blast
  from iterationBody_tool_calls [OF assms, of task w] rt
  have "iterationBody e useSearch useCode (Suc 0) messages (task, w) =
          Continue (messages @ [msg] @ toolMessages e (tool_calls msg))
            (snd (snd (runTools e (tool_calls msg) (messages @ [msg]) (task, ?w1))))"
    by simp
  then show ?thesis by (simp add: taskLoop_unfold)
qed

section \<open>The properties of the specification\<close>

subsection \<open>The stored text and the fragments\<close>

text \<open>
  C1 as stated fails in the middle of a stream: after the first read of a stream, the
  fragment \<open>Hel\<close> is stored and has been broadcast, and \<open>fullResponse\<close> is still empty.
\<close>

theorem fullResponse_lags_mid_stream:
  "chunks (fst (snd (snd (snd (streamReads streamEnv [''a'' @ [nl] @ ''b''] (freshTask, freshWorld))))))
     = [\<lparr>content = ''Hel'', index = 0\<rparr>]
   \<and> fullResponse (fst (snd (snd (snd (streamReads streamEnv [''a'' @ [nl] @ ''b''] (freshTask, freshWorld))))))
     = []
   \<and> \<not> textMatches (fst (snd (snd (snd (streamReads streamEnv [''a'' @ [nl] @ ''b''] (freshTask, freshWorld))))))"
  by (simp add: textMatches_def model_defs example_defs)

text \<open>
  C1, amended. For a task whose \<open>fullResponse\<close> equals the concatenation of its fragments
  when a stream starts: at every point of the stream, after any number of reads,
  \<open>fullResponse\<close> is unchanged and the concatenation of the fragments appended so far
  equals \<open>fullResponse\<close> followed by the text the stream has accumulated (the local
  \<open>fullText\<close> of \<open>streamFromOllama\<close>); \<open>fullResponse\<close> catches up when the stream ends,
  and whenever the task ends completed, \<open>fullResponse\<close> equals the index-ordered
  concatenation of all its fragments.
\<close>

theorem fullResponse_matches_fragments_on_completion:
  assumes "textMatches task"
  shows "(streamReads e reads (task, w) = (buffer, fullText, chunkIndex, (t1, w1)) \<longrightarrow>
            fullResponse t1 = fullResponse task
            \<and> concat (map content (chunks t1)) = fullResponse t1 @ fullText)
       \<and> (runTask e task messages useSearch useCode w = (task', w') \<and> status task' = Completed \<longrightarrow>
            textMatches task')"
proof (intro conjI impI)
  assume s: "streamReads e reads (task, w) = (buffer, fullText, chunkIndex, (t1, w1))"
  from streamReads_text [OF s] assms
  show "fullResponse t1 = fullResponse task" "concat (map content (chunks t1)) = fullResponse t1 @ fullText"
    by (simp_all add: textMatches_def)
next
  assume r: "runTask e task messages useSearch useCode w = (task', w') \<and> status task' = Completed"
  obtain r0 it t1 w1 where l: "taskLoop e useSearch useCode 0 messages (task, w) = (r0, it, (t1, w1))"
    by (cases "taskLoop e useSearch useCode 0 messages (task, w)") auto
  from runTask_settle [OF l] r have s: "settle e r0 (t1, w1) = (task', w')" by simp
  from settle_summary [OF s] r have none: "r0 = None"
    and same: "chunks task' = chunks t1" "fullResponse task' = fullResponse t1" by simp_all
  from textMatches_taskLoop [OF assms] l none have "textMatches t1" by simp
  with same show "textMatches task'" by (simp add: textMatches_def)
qed

theorem fullResponse_matches_fragments_on_completion_witness:
  "textMatches (fst (runTask streamEnv freshTask [] False False freshWorld))
   \<and> fullResponse (fst (runTask streamEnv freshTask [] False False freshWorld)) = ''Hello''
   \<and> map content (chunks (fst (runTask streamEnv freshTask [] False False freshWorld))) = [''Hel'', ''lo'']
   \<and> fst (snd (streamReads streamEnv [''a'' @ [nl] @ ''b''] (freshTask, freshWorld))) = ''Hel''
   \<and> concat (map content (chunks (fst (snd (snd (snd
         (streamReads streamEnv [''a'' @ [nl] @ ''b''] (freshTask, freshWorld)))))))) = [] @ ''Hel''"
proof -
  let ?R = "runTask streamEnv freshTask [] False False freshWorld"
  let ?S = "streamReads streamEnv [''a'' @ [nl] @ ''b''] (freshTask, freshWorld)"
  have m: "textMatches freshTask" by (simp add: textMatches_def example_defs)
  have c: "status (fst ?R) = Completed"
    by (simp add: model_defs example_defs taskLoop.simps)
  have v: "fullResponse (fst ?R) = ''Hello''" "map content (chunks (fst ?R)) = [''Hel'', ''lo'']"
    by (simp_all add: model_defs example_defs taskLoop.simps)
  have sv: "fst (snd ?S) = ''Hel''" "fullResponse freshTask = []"
    by (simp_all add: model_defs example_defs)
  have se: "?S = (fst ?S, fst (snd ?S), fst (snd (snd ?S)), (fst (snd (snd (snd ?S))), snd (snd (snd (snd ?S)))))"
    by simp
  note T = fullResponse_matches_fragments_on_completion [OF m, of streamEnv "[''a'' @ [nl] @ ''b'']" freshWorld
         "fst ?S" "fst (snd ?S)" "fst (snd (snd ?S))" "fst (snd (snd (snd ?S)))" "snd (snd (snd (snd ?S)))"
         "[]" False False "fst ?R" "snd ?R"]
  from T c have 1: "textMatches (fst ?R)" by simp
  from T se have "fullResponse (fst (snd (snd (snd ?S)))) = fullResponse freshTask
       \<and> concat (map content (chunks (fst (snd (snd (snd ?S)))))) = fullResponse (fst (snd (snd (snd ?S)))) @ fst (snd ?S)"
    by blast
  then have 2: "concat (map content (chunks (fst (snd (snd (snd ?S)))))) = [] @ ''Hel''"
    by (simp only: sv)
  from 1 2 v sv(1) show ?thesis by blast
qed

subsection \<open>Replay from an index\<close>



subsection \<open>The tool-calling round trip\<close>

text \<open>
  C3. When at least one tool is enabled and the first engine response, fetched without
  streaming and with the tools offered, carries tool calls, the external calls of the run
  are, in order: that one non-streaming engine request, one gateway invocation per
  requested tool in request order, and one further engine request, streaming and without
  tools, whose history is the original one followed by the engine's message and one
  \<open>tool\<close> entry per call. No engine or gateway call follows: the only call that can come
  after is the database write of the answer. The task has then left \<open>running\<close>.
\<close>

theorem tool_call_round_trip:
  assumes "useSearch \<or> useCode"
      and "fetch e 1 (requestBody useSearch useCode 1 messages) = Inr resp"
      and "ok resp" and "body_json resp = Inr msg" and "tool_calls msg \<noteq> []"
      and "runTask e task messages useSearch useCode w = (task', w')"
  shows "\<exists>rest.
           calls w' = calls w
             @ [EngineCall (requestBody useSearch useCode 1 messages)]
             @ toolExecs (tool_calls msg)
             @ [EngineCall (requestBody useSearch useCode 2
                              (messages @ [msg] @ toolMessages e (tool_calls msg)))]
             @ rest
         \<and> (rest = [] \<or> rest = [DbAddMessage (conversationId task) ''assistant'' (fullResponse task')])
         \<and> \<not> req_stream (requestBody useSearch useCode 1 messages)
         \<and> req_tools (requestBody useSearch useCode 1 messages) = Some (activeToolsOf useSearch useCode)
         \<and> req_stream (requestBody useSearch useCode 2 (messages @ [msg] @ toolMessages e (tool_calls msg)))
         \<and> req_tools (requestBody useSearch useCode 2 (messages @ [msg] @ toolMessages e (tool_calls msg))) = None
         \<and> status task' \<noteq> Running"
proof -
  let ?req1 = "requestBody useSearch useCode 1 messages"
  let ?m2 = "messages @ [msg] @ toolMessages e (tool_calls msg)"
  let ?req2 = "requestBody useSearch useCode (Suc (Suc 0)) ?m2"
  let ?w1 = "w\<lparr>calls := calls w @ [EngineCall ?req1]\<rparr>"
  obtain t2 w2 where st2: "snd (snd (runTools e (tool_calls msg) (messages @ [msg]) (task, ?w1))) = (t2, w2)"
    by (cases "snd (snd (runTools e (tool_calls msg) (messages @ [msg]) (task, ?w1)))") auto
  from runTools_frame [of e "tool_calls msg" "messages @ [msg]" task ?w1] st2
  have c2: "calls w2 = calls w @ [EngineCall ?req1] @ toolExecs (tool_calls msg)"
    and cv2: "conversationId t2 = conversationId task" by auto
  have first: "taskLoop e useSearch useCode 0 messages (task, w) =
                 taskLoop e useSearch useCode (Suc 0) ?m2 (t2, w2)"
    using tools_first_turn [OF assms(1-5), of task w] st2 by simp
  have s2: "req_stream ?req2" by (simp add: req_stream_requestBody)
  from stream_turn [OF s2, of e t2 w2] obtain t3 w3 where
    ts: "turnState (iterationBody e useSearch useCode (Suc (Suc 0)) ?m2 (t2, w2)) = (t3, w3)"
    and nc: "\<forall>m' s. iterationBody e useSearch useCode (Suc (Suc 0)) ?m2 (t2, w2) \<noteq> Continue m' s"
    and c3: "calls w3 = calls w2 @ [EngineCall ?req2]"
    and cv3: "conversationId t3 = conversationId t2" by blast
  from taskLoop_last_turn [of "Suc 0", OF _ nc] ts obtain r where
    "taskLoop e useSearch useCode (Suc 0) ?m2 (t2, w2) = (r, Suc (Suc 0), (t3, w3))" by auto
  with first have "taskLoop e useSearch useCode 0 messages (task, w) = (r, Suc (Suc 0), (t3, w3))"
    by simp
  from runTask_settle [OF this] assms(6) have s: "settle e r (t3, w3) = (task', w')" by simp
  from settle_summary [OF s] obtain rest where
    run: "status task' \<noteq> Running" and fr: "fullResponse task' = fullResponse t3"
    and cs: "calls w' = calls w3 @ rest"
    and rest: "rest = [] \<or> rest = [DbAddMessage (conversationId t3) ''assistant'' (fullResponse t3)]"
    by blast
  have 1: "calls w' = calls w @ [EngineCall ?req1] @ toolExecs (tool_calls msg) @ [EngineCall ?req2] @ rest"
    using cs c3 c2 by simp
  have 2: "rest = [] \<or> rest = [DbAddMessage (conversationId task) ''assistant'' (fullResponse task')]"
    using rest cv3 cv2 fr by simp
  have 3: "\<not> req_stream ?req1" "req_tools ?req1 = Some (activeToolsOf useSearch useCode)"
          "req_tools ?req2 = None"
    using assms(1) by (simp_all add: req_stream_requestBody req_tools_requestBody)
  from 1 2 3 s2 run show ?thesis
    unfolding numeral_2_eq_2 by blast
qed

theorem tool_call_round_trip_witness:
  "\<exists>rest.
     calls (snd (runTask toolEnv freshTask [] False True freshWorld)) =
       [EngineCall \<lparr>req_messages = [], req_stream = False, req_tools = Some [''execute_python'']\<rparr>,
        ToolExec ''execute_python'' (Obj [(''code'', ''print(2+2)'')]),
        EngineCall \<lparr>req_messages =
            [Message ''assistant'' [] [ToolCall ''execute_python'' (Obj [(''code'', ''print(2+2)'')])],
             Message ''tool'' ([CHR 0x22] @ ''4'' @ [CHR 0x22]) []],
          req_stream = True, req_tools = None\<rparr>]
       @ rest"
proof -
  let ?msg = "Message ''assistant'' [] [ToolCall ''execute_python'' (Obj [(''code'', ''print(2+2)'')])]"
  have f: "fetch toolEnv 1 (requestBody False True 1 []) = Inr toolCallResponse"
    by (simp add: toolEnv_def streamEnv_def req_stream_requestBody)
  have o: "ok toolCallResponse" and j: "body_json toolCallResponse = Inr ?msg"
    and t: "tool_calls ?msg \<noteq> []"
    by (simp_all add: toolCallResponse_def)
  have r: "toolResult toolEnv (ToolCall ''execute_python'' (Obj [(''code'', ''print(2+2)'')])) = ''4''"
    by (simp add: toolResult_def executeTool_def executePythonCode_def getProp_def toolEnv_def
          streamEnv_def trim_examples)
  have js: "jsonStringify toolEnv = (\<lambda>s. [CHR 0x22] @ s @ [CHR 0x22])"
    by (simp add: toolEnv_def streamEnv_def)
  have tm: "toolMessages toolEnv (tool_calls ?msg) = [Message ''tool'' ([CHR 0x22] @ ''4'' @ [CHR 0x22]) []]"
    by (simp add: toolMessages_def r js)
  have te: "toolExecs (tool_calls ?msg) = [ToolExec ''execute_python'' (Obj [(''code'', ''print(2+2)'')])]"
    by (simp add: toolExecs_def)
  have e1: "requestBody False True 1 [] =
              \<lparr>req_messages = [], req_stream = False, req_tools = Some [''execute_python'']\<rparr>"
    by (simp add: requestBody_def activeToolsOf_def availableTools_def)
  have e2: "\<And>ms. requestBody False True 2 ms = \<lparr>req_messages = ms, req_stream = True, req_tools = None\<rparr>"
    by (simp add: requestBody_def activeToolsOf_def availableTools_def)
  have c0: "calls freshWorld = []" by (simp add: freshWorld_def)
  from tool_call_round_trip [OF _ f o j t surjective_pairing, of freshTask freshWorld]
  obtain rest where
    "calls (snd (runTask toolEnv freshTask [] False True freshWorld)) = calls freshWorld
       @ [EngineCall (requestBody False True 1 [])]
       @ toolExecs (tool_calls ?msg)
       @ [EngineCall (requestBody False True 2 ([] @ [?msg] @ toolMessages toolEnv (tool_calls ?msg)))]
       @ rest"
    by blast
  then have "calls (snd (runTask toolEnv freshTask [] False True freshWorld)) =
       [EngineCall \<lparr>req_messages = [], req_stream = False, req_tools = Some [''execute_python'']\<rparr>,
        ToolExec ''execute_python'' (Obj [(''code'', ''print(2+2)'')]),
        EngineCall \<lparr>req_messages =
            [Message ''assistant'' [] [ToolCall ''execute_python'' (Obj [(''code'', ''print(2+2)'')])],
             Message ''tool'' ([CHR 0x22] @ ''4'' @ [CHR 0x22]) []],
          req_stream = True, req_tools = None\<rparr>]
       @ rest"
    by (simp only: c0 e1 e2 tm te) simp
  then show ?thesis by blast
qed

subsection \<open>The notice of a tool execution\<close>

text \<open>
  C4 as stated fails: in a run with code execution enabled, where the engine asks for
  \<open>execute_python\<close> and then streams \<open>Hel\<close>, \<open>lo\<close>, the subscriber receives the notice
  with index \<open>-1\<close>, not with the next fragment index \<open>0\<close>, and the task stores only the two
  streamed fragments: the notice is not in its fragment sequence.
\<close>

theorem tool_notice_has_no_index_and_is_not_stored:
  "queue (controllers (snd (runTask toolEnv freshTask [] False True freshWorld)) 0)
     = [Data (ChunkEv (toolNotice ''execute_python'') (- 1)),
        Data (ChunkEv ''Hel'' 0), Data (ChunkEv ''lo'' 1), Data DoneEv]
   \<and> chunks (fst (runTask toolEnv freshTask [] False True freshWorld))
     = [\<lparr>content = ''Hel'', index = 0\<rparr>, \<lparr>content = ''lo'', index = 1\<rparr>]"
  by (simp add: model_defs example_defs taskLoop.simps executeTool_def executePythonCode_def
        getProp_def req_stream_requestBody)

text \<open>
  C4, amended. The notice of each requested tool is only broadcast: the tool loop leaves
  the task's fragment sequence as it was, so a notice takes no fragment index and is not
  replayed to later subscribers. In the tools-enabled scenario, a subscriber that is live
  when the run starts receives, after what it already had: one chunk event with index
  \<open>-1\<close> per requested tool, in request order; then the fragments the stream appended,
  which are numbered on from the number of fragments the task had before; then the
  terminal signal.
\<close>

theorem tool_notices_are_broadcast_only:
  assumes "useSearch \<or> useCode"
      and "fetch e 1 (requestBody useSearch useCode 1 messages) = Inr resp"
      and "ok resp" and "body_json resp = Inr msg" and "tool_calls msg \<noteq> []"
      and "attached c (task, w)"
      and "runTask e task messages useSearch useCode w = (task', w')"
  shows "queue (controllers w' c) =
           queue (controllers w c) @ noticeEvents (tool_calls msg)
             @ replayEvents (drop (length (chunks task)) (chunks task')) @ terminalSignal task'
       \<and> take (length (chunks task)) (chunks task') = chunks task
       \<and> map index (drop (length (chunks task)) (chunks task'))
           = map int [length (chunks task)..<length (chunks task')]
       \<and> chunks (fst (snd (snd (runTools e tools ms (t0, w0))))) = chunks t0"
proof -
  let ?req1 = "requestBody useSearch useCode 1 messages"
  let ?m2 = "messages @ [msg] @ toolMessages e (tool_calls msg)"
  let ?w1 = "w\<lparr>calls := calls w @ [EngineCall ?req1]\<rparr>"
  have stored: "chunks (fst (snd (snd (runTools e tools ms (t0, w0))))) = chunks t0"
    using runTools_frame [of e tools ms t0 w0] by auto
  obtain r2 ms2 t2 w2 where rt: "runTools e (tool_calls msg) (messages @ [msg]) (task, ?w1) = (r2, ms2, (t2, w2))"
    by (cases "runTools e (tool_calls msg) (messages @ [msg]) (task, ?w1)") auto
  have a1: "attached c (task, ?w1)" using assms(6) by (simp add: attached_def)
  from runTools_attached [OF a1 rt]
  have a2: "attached c (t2, w2)"
    and q2: "queue (controllers w2 c) = queue (controllers w c) @ noticeEvents (tool_calls msg)"
    by simp_all
  from runTools_frame [of e "tool_calls msg" "messages @ [msg]" task ?w1] rt
  have ch2: "chunks t2 = chunks task" by auto
  have first: "taskLoop e useSearch useCode 0 messages (task, w) =
                 taskLoop e useSearch useCode (Suc 0) ?m2 (t2, w2)"
    using tools_first_turn [OF assms(1-5), of task w] rt by simp
  have s2: "req_stream (requestBody useSearch useCode (Suc (Suc 0)) ?m2)"
    by (simp add: req_stream_requestBody)
  from stream_turn [OF s2, of e t2 w2] a2 obtain t3 w3 new where
    ts: "turnState (iterationBody e useSearch useCode (Suc (Suc 0)) ?m2 (t2, w2)) = (t3, w3)"
    and nc: "\<forall>m' s. iterationBody e useSearch useCode (Suc (Suc 0)) ?m2 (t2, w2) \<noteq> Continue m' s"
    and a3: "attached c (t3, w3)"
    and ch3: "chunks t3 = chunks t2 @ new"
    and q3: "queue (controllers w3 c) = queue (controllers w2 c) @ replayEvents new"
    and ix: "map index new = map int [length (chunks t2)..<length (chunks t2) + length new]"
    by blast
  from taskLoop_last_turn [of "Suc 0", OF _ nc] ts obtain r where
    "taskLoop e useSearch useCode (Suc 0) ?m2 (t2, w2) = (r, Suc (Suc 0), (t3, w3))" by auto
  with first have "taskLoop e useSearch useCode 0 messages (task, w) = (r, Suc (Suc 0), (t3, w3))"
    by simp
  from runTask_settle [OF this] assms(7) have s: "settle e r (t3, w3) = (task', w')" by simp
  from settle_summary [OF s] have ch: "chunks task' = chunks task @ new" using ch3 ch2 by simp
  from settle_attached [OF a3 s]
  have q: "queue (controllers w' c) = queue (controllers w3 c) @ terminalSignal task'" by simp
  have 1: "queue (controllers w' c) =
           queue (controllers w c) @ noticeEvents (tool_calls msg)
             @ replayEvents (drop (length (chunks task)) (chunks task')) @ terminalSignal task'"
    using q q3 q2 ch by simp
  have 2: "take (length (chunks task)) (chunks task') = chunks task" using ch by simp
  have 3: "map index (drop (length (chunks task)) (chunks task'))
           = map int [length (chunks task)..<length (chunks task')]"
    using ix ch ch2 by simp
  from 1 2 3 stored show ?thesis by blast
qed

theorem tool_notices_are_broadcast_only_witness:
  "queue (controllers (snd (runTask toolEnv freshTask [] False True freshWorld)) 0) =
     noticeEvents [ToolCall ''execute_python'' (Obj [(''code'', ''print(2+2)'')])]
       @ replayEvents [\<lparr>content = ''Hel'', index = 0\<rparr>, \<lparr>content = ''lo'', index = 1\<rparr>]
       @ [Data DoneEv]"
proof -
  let ?msg = "Message ''assistant'' [] [ToolCall ''execute_python'' (Obj [(''code'', ''print(2+2)'')])]"
  let ?R = "runTask toolEnv freshTask [] False True freshWorld"
  have f: "fetch toolEnv 1 (requestBody False True 1 []) = Inr toolCallResponse"
    by (simp add: toolEnv_def streamEnv_def req_stream_requestBody)
  have o: "ok toolCallResponse" and j: "body_json toolCallResponse = Inr ?msg"
    and t: "tool_calls ?msg \<noteq> []"
    by (simp_all add: toolCallResponse_def)
  have a: "attached 0 (freshTask, freshWorld)" by (simp add: attached_def example_defs)
  have v: "chunks (fst ?R) = [\<lparr>content = ''Hel'', index = 0\<rparr>, \<lparr>content = ''lo'', index = 1\<rparr>]"
          "status (fst ?R) = Completed"
    by (simp_all add: model_defs example_defs taskLoop.simps executeTool_def executePythonCode_def
          getProp_def req_stream_requestBody)
  have q0: "queue (controllers freshWorld 0) = []" "chunks freshTask = []"
    by (simp_all add: example_defs)
  from tool_notices_are_broadcast_only [OF _ f o j t a surjective_pairing]
  have "queue (controllers (snd ?R) 0) =
           queue (controllers freshWorld 0) @ noticeEvents (tool_calls ?msg)
             @ replayEvents (drop (length (chunks freshTask)) (chunks (fst ?R))) @ terminalSignal (fst ?R)"
    by blast
  then show ?thesis by (simp add: v q0 terminalSignal_def)
qed

subsection \<open>The terminal transition\<close>

text \<open>
  C5. A run in which the engine streams \<open>Hel\<close>, \<open>lo\<close> and \<open>db.addMessage\<close> then throws:
  \<open>processTask\<close> rejects with the task already marked \<open>completed\<close>, and the \<open>catch\<close>
  handler of \<open>startTask\<close> marks it \<open>error\<close>. The subscriber gets the two fragments and
  one error event, no \<open>done\<close>.
\<close>

theorem completed_overwritten_when_persistence_throws:
  "fst (processTask dbFailEnv freshTask [] False False freshWorld) = Some ''database is locked''
   \<and> status (fst (snd (processTask dbFailEnv freshTask [] False False freshWorld))) = Completed
   \<and> status (fst (runTask dbFailEnv freshTask [] False False freshWorld)) = Error
   \<and> queue (controllers (snd (runTask dbFailEnv freshTask [] False False freshWorld)) 0)
       = [Data (ChunkEv ''Hel'' 0), Data (ChunkEv ''lo'' 1), Data (ErrorEv (Some ''database is locked''))]"
  by (simp add: model_defs example_defs taskLoop.simps)

theorem completed_overwritten_when_persistence_throws_witness:
  "status (fst (snd (processTask dbFailEnv freshTask [] False False freshWorld)))
     \<noteq> status (fst (runTask dbFailEnv freshTask [] False False freshWorld))"
  using completed_overwritten_when_persistence_throws by simp

subsection \<open>Engine failure on the first request\<close>

text \<open>
  C6. When the engine answers the first request of a task with a non-success HTTP status,
  the task ends with status \<open>error\<close> and the message \<open>Ollama error (<status>): <body>\<close> in its
  error field; every live subscriber gets exactly that one error event after what it
  already had, and is closed; the subscriber set is emptied; nothing is written to the
  database, and the only external call made is the one engine request.
\<close>

theorem engine_http_failure_ends_in_error:
  assumes "fetch e 1 (requestBody useSearch useCode 1 messages) = Inr resp"
      and "\<not> ok resp"
      and "runTask e task messages useSearch useCode w = (task', w')"
  shows "status task' = Error
       \<and> error task' = Some (''Ollama error ('' @ showNat (http_status resp) @ ''): '' @ body_text resp)
       \<and> subscribers task' = []
       \<and> db w' = db w
       \<and> calls w' = calls w @ [EngineCall (requestBody useSearch useCode 1 messages)]
       \<and> (\<forall>c. attached c (task, w) \<longrightarrow>
             queue (controllers w' c) = queue (controllers w c) @ [Data (ErrorEv (error task'))]
             \<and> closed (controllers w' c))"
proof -
  let ?m = "''Ollama error ('' @ showNat (http_status resp) @ ''): '' @ body_text resp"
  let ?w1 = "w\<lparr>calls := calls w @ [EngineCall (requestBody useSearch useCode 1 messages)]\<rparr>"
  have "iterationBody e useSearch useCode (Suc 0) messages (task, w) = Throw ?m (task, ?w1)"
    using iterationBody_http_failure [of e "Suc 0" useSearch useCode messages resp task w] assms(1,2)
    by simp
  then have "taskLoop e useSearch useCode 0 messages (task, w) = (Some ?m, Suc 0, (task, ?w1))"
    by (simp add: taskLoop_unfold)
  from runTask_settle [OF this] assms(3)
  have s: "settle e (Some ?m) (task, ?w1) = (task', w')" by simp
  from settle_Some [OF s] obtain ctl where
    t: "task' = task\<lparr>status := Error, error := Some ?m, subscribers := []\<rparr>"
    and w: "w' = ?w1\<lparr>controllers := ctl\<rparr>" by blast
  have q: "\<forall>c. attached c (task, w) \<longrightarrow>
             queue (controllers w' c) = queue (controllers w c) @ [Data (ErrorEv (error task'))]
             \<and> closed (controllers w' c)"
  proof (intro allI impI)
    fix c assume "attached c (task, w)"
    then have "attached c (task, ?w1)" by (simp add: attached_def)
    from settle_attached [OF this s] show
      "queue (controllers w' c) = queue (controllers w c) @ [Data (ErrorEv (error task'))]
       \<and> closed (controllers w' c)"
      by (simp add: terminalSignal_def t)
  qed
  from t w q show ?thesis by simp
qed

theorem engine_http_failure_ends_in_error_witness:
  "status (fst (runTask failEnv freshTask [] True False freshWorld)) = Error
   \<and> error (fst (runTask failEnv freshTask [] True False freshWorld)) = Some ''Ollama error (500): boom''
   \<and> queue (controllers (snd (runTask failEnv freshTask [] True False freshWorld)) 0)
       = [Data (ErrorEv (Some ''Ollama error (500): boom''))]
   \<and> closed (controllers (snd (runTask failEnv freshTask [] True False freshWorld)) 0)
   \<and> db (snd (runTask failEnv freshTask [] True False freshWorld)) = []"
proof -
  have f: "fetch failEnv 1 (requestBody True False 1 []) = Inr failResponse"
    by (simp add: failEnv_def streamEnv_def)
  have nok: "\<not> ok failResponse" by (simp add: failResponse_def)
  have a: "attached 0 (freshTask, freshWorld)"
    by (simp add: attached_def example_defs)
  have n: "showNat 500 = ''500''" by (simp add: showNat.simps)
  have q0: "queue (controllers freshWorld 0) = []" "db freshWorld = []"
    by (simp_all add: example_defs)
  from engine_http_failure_ends_in_error [OF f nok surjective_pairing] a
  show ?thesis by (simp add: failResponse_def n q0)
qed

subsection \<open>The tool gateway and exceptions\<close>




subsection \<open>Client disconnect\<close>

text \<open>
  C8. A stream cancel closes the cancelled stream and changes nothing else: the task's
  status, fragments and text are untouched, and so is its subscriber set, since the
  callback deletes \<open>undefined\<close> from it: the cancelled controller stays a member.
\<close>

theorem cancel_changes_only_the_stream:
  "cancel taskId c w = w\<lparr>controllers := (controllers w)(c := (controllers w c)\<lparr>closed := True\<rparr>)\<rparr>"
proof (cases "activeTasks w taskId")
  case None
  then show ?thesis by (simp add: cancel_def)
next
  case (Some task)
  then have "(activeTasks w)(taskId \<mapsto> task) = activeTasks w" by (simp add: fun_upd_idem)
  with Some show ?thesis by (simp add: cancel_def)
qed

theorem cancel_changes_only_the_stream_witness:
  "map_option subscribers (activeTasks (cancel ''t1'' 0 freshWorld) ''t1'') = Some [0]
   \<and> closed (controllers (cancel ''t1'' 0 freshWorld) 0)"
  using cancel_changes_only_the_stream [of "''t1''" 0 freshWorld]
  by (simp add: example_defs)

subsection \<open>Removal from the registry\<close>

text \<open>
  C9. The deletion of a task from the registry is scheduled, five minutes ahead, exactly
  when the task ends with status \<open>completed\<close>; a task that ends in \<open>error\<close> schedules
  nothing.
\<close>

theorem removal_scheduled_only_on_completion:
  assumes "runTask e task messages useSearch useCode w = (task', w')"
  shows "timers w' = (if status task' = Completed then timers w @ [(5 * 60 * 1000, task_id task)]
                      else timers w)"
proof -
  obtain r it t1 w1 where l: "taskLoop e useSearch useCode 0 messages (task, w) = (r, it, (t1, w1))"
    by (cases "taskLoop e useSearch useCode 0 messages (task, w)") auto
  from unchanged_taskLoop [of "(task, w)" e useSearch useCode 0 messages] l
  have u: "task_id t1 = task_id task" "timers w1 = timers w" by (simp_all add: unchanged_def)
  from runTask_settle [OF l] assms have "settle e r (t1, w1) = (task', w')" by simp
  from settle_timers [OF this] u show ?thesis by simp
qed

theorem removal_scheduled_only_on_completion_witness:
  "status (fst (runTask failEnv freshTask [] True False freshWorld)) = Error
   \<and> timers (snd (runTask failEnv freshTask [] True False freshWorld)) = []
   \<and> timers (runRegistered failEnv ''t1'' [] True False freshWorld) = []
   \<and> map_option status (activeTasks (fireTimers (runRegistered failEnv ''t1'' [] True False freshWorld)) ''t1'')
       = Some Error"
proof -
  have s: "status (fst (runTask failEnv freshTask [] True False freshWorld)) = Error"
    by (simp add: model_defs example_defs taskLoop.simps showNat.simps)
  have t: "timers (snd (runTask failEnv freshTask [] True False freshWorld)) = []"
    using removal_scheduled_only_on_completion [OF surjective_pairing, of failEnv freshTask "[]" True False freshWorld] s
    by (simp add: freshWorld_def)
  have reg: "activeTasks freshWorld ''t1'' = Some freshTask" by (simp add: freshWorld_def)
  have r: "runRegistered failEnv ''t1'' [] True False freshWorld =
           (snd (runTask failEnv freshTask [] True False freshWorld))
             \<lparr>activeTasks := (activeTasks (snd (runTask failEnv freshTask [] True False freshWorld)))
                 (''t1'' \<mapsto> fst (runTask failEnv freshTask [] True False freshWorld))\<rparr>"
    by (simp add: runRegistered_def reg split: prod.splits)
  show ?thesis using s t by (simp add: r fireTimers_def)
qed

subsection \<open>A from parameter that is not a number\<close>

text \<open>
  C10. When the \<open>from\<close> parameter of the stream request makes \<open>parseInt\<close> return NaN, the
  replay filter matches no stored fragment, whatever the task holds: nothing is replayed
  (only the terminal signal of a finished task is sent), and for a running task the new
  controller is added to the subscriber set all the same.
\<close>

theorem handleTaskStream_NaN_replays_nothing:
  assumes "activeTasks w taskId = Some task"
      and "parseInt (fromParam p) = NaN"
  shows "\<exists>c w'. handleTaskStream taskId p w = Some (c, w') \<and>
           missedChunks task (parseInt (fromParam p)) = [] \<and>
           queue (controllers w' c) = terminalSignal task \<and>
           (status task = Running \<longrightarrow>
              (\<exists>task'. activeTasks w' taskId = Some task' \<and> c \<in> set (subscribers task')))"
proof -
  have none: "missedChunks task NaN = []" by (simp add: missedChunks_def)
  from subscribe_queue [OF assms(1), of NaN] none show ?thesis
    by (auto simp: handleTaskStream_def assms(2) replayEvents_def)
qed

theorem handleTaskStream_NaN_replays_nothing_witness:
  "parseInt (fromParam (Some ''abc'')) = NaN \<and> chunks midTask \<noteq> [] \<and>
   (\<exists>c w'. handleTaskStream ''t1'' (Some ''abc'') midWorld = Some (c, w') \<and>
      queue (controllers w' c) = [] \<and>
      (\<exists>task'. activeTasks w' ''t1'' = Some task' \<and> c \<in> set (subscribers task')))"
proof -
  have nan: "parseInt (fromParam (Some ''abc'')) = NaN"
    by (simp add: parseInt_def fromParam_def whiteSpace_def skipLeading.simps isRadixDigit_def digitValue_def)
  have reg: "activeTasks midWorld ''t1'' = Some midTask"
    by (simp add: midWorld_def freshWorld_def)
  have run: "status midTask = Running" "terminalSignal midTask = []" "chunks midTask \<noteq> []"
    by (simp_all add: midTask_def freshTask_def newTask_def terminalSignal_def)
  from handleTaskStream_NaN_replays_nothing [OF reg nan] run nan show ?thesis by auto
qed

end
